theory Spec2Isabelle
  imports Complex_Main "HOL-Library.Sublist"
begin

chapter \<open>Definitions: the embedded program\<close>

section \<open>JavaScript strings\<close>

text \<open>
  A JavaScript string is modelled as a \<^typ>\<open>string\<close>. \<open>toLowerCase\<close> maps the letters
  \<open>A\<close>..\<open>Z\<close> to \<open>a\<close>..\<open>z\<close> and leaves every other character alone (model IDs and URL
  paths are ASCII). \<open>s.includes(sub)\<close> (here \<open>js_includes\<close>) is contiguous substring search and
  \<open>s.startsWith(p)\<close> is \<^const>\<open>prefix\<close>.
\<close>

definition lower_char :: "char \<Rightarrow> char" where
  "lower_char c =
     (let n = (of_char c :: nat) in if 65 \<le> n \<and> n \<le> 90 then char_of (n + 32) else c)"

definition toLowerCase :: "string \<Rightarrow> string" where
  "toLowerCase s = map lower_char s"

fun js_includes :: "string \<Rightarrow> string \<Rightarrow> bool" where
  "js_includes [] sub = (sub = [])"
| "js_includes (c # cs) sub = (prefix sub (c # cs) \<or> js_includes cs sub)"


text \<open>
  An optional string is \<open>None\<close> when the value is \<open>undefined\<close>. It is truthy when it is a
  string that is not empty; \<open>a || b\<close> is \<open>a\<close> when \<open>a\<close> is truthy and \<open>b\<close> otherwise.
\<close>

definition truthy_str :: "string option \<Rightarrow> bool" where
  "truthy_str v = (case v of None \<Rightarrow> False | Some s \<Rightarrow> s \<noteq> [])"


section \<open>Quota groups and the quota summary (public/js/quota.js)\<close>

record quota_group =
  key :: string
  label :: string
  iconSrc :: string
  match :: "string \<Rightarrow> bool"

definition group_claude :: quota_group where
  "group_claude = \<lparr> key = ''claude'', label = ''Claude'',
     iconSrc = ''/assets/icons/claude.svg'',
     match = (\<lambda>modelId. js_includes (toLowerCase modelId) ''claude'') \<rparr>"

definition group_banana :: quota_group where
  "group_banana = \<lparr> key = ''banana'', label = ''banana'',
     iconSrc = ''/assets/icons/banana.svg'',
     match = (\<lambda>modelId. js_includes (toLowerCase modelId) ''gemini-3-pro-image'') \<rparr>"

definition group_gemini :: quota_group where
  "group_gemini = \<lparr> key = ''gemini'', label = ''Gemini'',
     iconSrc = ''/assets/icons/gemini.svg'',
     match = (\<lambda>modelId. js_includes (toLowerCase modelId) ''gemini''
                       \<or> js_includes (toLowerCase modelId) ''publishers/google/'') \<rparr>"

definition group_other :: quota_group where
  "group_other = \<lparr> key = ''other'', label = ''Other'', iconSrc = [],
     match = (\<lambda>modelId. True) \<rparr>"

text \<open>The array literal of the source, in the source's order.\<close>

definition QUOTA_GROUPS :: "quota_group list" where
  "QUOTA_GROUPS = [group_claude, group_banana, group_gemini, group_other]"

text \<open>
  \<open>(QUOTA_GROUPS.find(g => g.match(modelId)) || QUOTA_GROUPS[QUOTA_GROUPS.length - 1]).key\<close>
\<close>

definition find_group :: "quota_group list \<Rightarrow> string \<Rightarrow> quota_group" where
  "find_group groups modelId =
     (case find (\<lambda>g. match g modelId) groups of Some g \<Rightarrow> g | None \<Rightarrow> last groups)"

definition groupKey :: "string \<Rightarrow> string" where
  "groupKey modelId = key (find_group QUOTA_GROUPS modelId)"

text \<open>
  The same search over the groups in the order in which the specification lists them
  (claude, gemini, banana, other); used only to compare with \<^const>\<open>groupKey\<close>.
\<close>

definition QUOTA_GROUPS_spec_order :: "quota_group list" where
  "QUOTA_GROUPS_spec_order = [group_claude, group_gemini, group_banana, group_other]"

definition groupKey_spec_order :: "string \<Rightarrow> string" where
  "groupKey_spec_order modelId = key (find_group QUOTA_GROUPS_spec_order modelId)"

text \<open>
  \<open>groupModels\<close>: \<open>models\<close> is a JavaScript object, here the list of its entries in
  \<open>Object.entries\<close> order; \<open>grouped\<close> is an object keyed by group key, here a map. An
  entry is pushed onto the array of its group, which is created when it is missing.
\<close>

type_synonym 'q grouped = "string \<rightharpoonup> (string \<times> 'q) list"

definition grouped_init :: "'q grouped" where
  "grouped_init = [''claude'' \<mapsto> [], ''gemini'' \<mapsto> [], ''banana'' \<mapsto> [], ''other'' \<mapsto> []]"

definition group_keys :: "string set" where
  "group_keys = {''claude'', ''gemini'', ''banana'', ''other''}"

definition push_grouped :: "'q grouped \<Rightarrow> string \<times> 'q \<Rightarrow> 'q grouped" where
  "push_grouped grouped entry =
     (let groupKey = groupKey (fst entry);
          arr = (case grouped groupKey of None \<Rightarrow> [] | Some a \<Rightarrow> a)
      in grouped(groupKey \<mapsto> arr @ [entry]))"

definition groupModels :: "(string \<times> 'q) list \<Rightarrow> 'q grouped" where
  "groupModels models = foldl push_grouped grouped_init models"

text \<open>
  Numbers. A JavaScript number is an IEEE 754 double, and the arithmetic of \<open>quota.js\<close> is
  that of doubles: the exact result of \<open>*\<close> or \<open>/\<close> is rounded to the nearest double, a
  tie going to the even mantissa. A finite double is modelled as the rational number it
  stands for, and \<open>to_double x\<close> is the double nearest to \<open>x\<close>: 53 significant bits from
  the leading bit of \<open>x\<close> down, or down to the bit of weight 2 to the power -1074 in the subnormal range. Every
  number of the quota summary lies between 0 and 150, far from overflow, which is left out.
  \<open>Math.max\<close>, \<open>Math.min\<close>, \<open>Math.floor\<close> and comparisons are exact.
\<close>

function log2floor :: "int \<Rightarrow> int" where
  "log2floor n = (if n < 2 then 0 else 1 + log2floor (n div 2))"
  by pat_completeness auto
termination
  by (relation "measure nat") auto

declare log2floor.simps [simp del]

definition pow2 :: "int \<Rightarrow> rat" where
  "pow2 k = (if k \<ge> 0 then 2 ^ nat k else 1 / 2 ^ nat (- k))"

text \<open>The exponent \<open>k\<close> of the leading bit of \<open>x \<noteq> 0\<close>: \<open>pow2 k \<le> |x| < pow2 (k + 1)\<close>.\<close>

definition binade :: "rat \<Rightarrow> int" where
  "binade x =
     (let (n, d) = quotient_of \<bar>x\<bar>;
          k = log2floor n - log2floor d
      in if pow2 k \<le> \<bar>x\<bar> then k else k - 1)"

definition round_half_even :: "rat \<Rightarrow> int" where
  "round_half_even q =
     (let f = \<lfloor>q\<rfloor>; r = q - of_int f
      in if r < 1 / 2 then f
         else if r > 1 / 2 then f + 1
         else if even f then f else f + 1)"

definition to_double :: "rat \<Rightarrow> rat" where
  "to_double x =
     (if x = 0 then 0
      else let ulp = pow2 (max (binade x) (- 1022) - 52)
           in of_int (round_half_even (x / ulp)) * ulp)"

definition dmul :: "rat \<Rightarrow> rat \<Rightarrow> rat" where
  "dmul a b = to_double (a * b)"

definition ddiv :: "rat \<Rightarrow> rat \<Rightarrow> rat" where
  "ddiv a b = to_double (a / b)"

text \<open>
  \<open>clamp01(value)\<close>: a value for which \<open>Number.isFinite(Number(value))\<close> is false
  (undefined, NaN, an infinity, a string that is no number) is \<open>None\<close>.
\<close>

definition clamp01 :: "rat option \<Rightarrow> rat" where
  "clamp01 v = (case v of None \<Rightarrow> 0 | Some numberValue \<Rightarrow> min 1 (max 0 numberValue))"

definition toPercentage :: "rat option \<Rightarrow> rat" where
  "toPercentage fraction01 = dmul (clamp01 fraction01) 100"

record quota =
  remaining :: "rat option"

record summary =
  percentage :: rat
  estimatedRequests :: int

text \<open>The body of the \<open>forEach\<close> of \<open>summarizeGroup\<close>, for the running minimum.\<close>

definition min_step :: "rat \<Rightarrow> string \<times> quota \<Rightarrow> rat" where
  "min_step minRemaining item =
     (let remaining = clamp01 (remaining (snd item))
      in if remaining < minRemaining then remaining else minRemaining)"

text \<open>
  \<open>summarizeGroup(items, requestCount = 0)\<close>. The literal \<open>0.6667\<close> is the double nearest
  to that decimal. \<open>requestCount\<close> is a count of requests, an integer far below 2 to the power 53, so
  that the subtraction is exact. The reset-time fields of the result and the formatted
  percentage text are computed from the same items independently of the two numeric
  fields kept here.
\<close>

definition summarizeGroup :: "(string \<times> quota) list \<Rightarrow> int \<Rightarrow> summary" where
  "summarizeGroup items requestCount =
     (if items = [] then \<lparr> percentage = 0, estimatedRequests = 0 \<rparr>
      else
        let minRemaining = foldl min_step 1 items;
            percentageValue = toPercentage (Some minRemaining);
            totalFromThreshold = \<lfloor>ddiv percentageValue (to_double (6667 / 10000))\<rfloor>;
            estimatedRequests = max 0 (totalFromThreshold - requestCount)
        in \<lparr> percentage = percentageValue, estimatedRequests = estimatedRequests \<rparr>)"

text \<open>
  The figures in the words of the specification, for the remaining fractions of the
  models of one group, each a number between 0 and 1: \<open>remaining_pct\<close> is the minimum
  remaining fraction expressed as a percentage, and the estimate is
  \<open>floor(remaining_pct / 0.6667) - request_counter\<close>, not below 0. The arithmetic is that of
  JavaScript numbers.
\<close>

definition spec_remaining_pct :: "rat list \<Rightarrow> rat" where
  "spec_remaining_pct fractions = dmul (Min (set fractions)) 100"

definition spec_estimate :: "rat list \<Rightarrow> int \<Rightarrow> int" where
  "spec_estimate fractions request_counter =
     max 0 (\<lfloor>ddiv (spec_remaining_pct fractions) (to_double (6667 / 10000))\<rfloor>
            - request_counter)"

section \<open>The middleware chain of the server (src/server/index.js)\<close>


datatype message =
  AccessDeniedPermanent | AccessDeniedTemporary int | InvalidAPIKey | NotFound | Answer string

record response =
  res_status :: nat
  res_error :: message
















section \<open>The memory manager (src/utils/memoryManager.js)\<close>

text \<open>
  \<open>cleanupCallbacks\<close> is a \<open>Set\<close> of function objects. A function object is named by a
  number, its identity; what it does when called is looked up in a table of function
  bodies, a parameter of \<open>cleanup\<close>. Called with the reason, a callback changes the world
  outside the manager (a value of type \<open>'w\<close>), may call \<open>registerCleanup\<close> and
  \<open>unregisterCleanup\<close> on the manager, and either returns or throws. The thrown value is
  \<open>Thrown m\<close> when reading its \<open>message\<close> property gives \<open>m\<close> (the text of an \<open>Error\<close>, or
  \<open>None\<close> for \<open>undefined\<close>), and \<open>ThrownNullish\<close> when it is \<open>null\<close> or \<open>undefined\<close>, on which
  reading \<open>error.message\<close> is itself a \<open>TypeError\<close>.

  The \<open>Set\<close> is the list of its entries in insertion order, as in the language definition:
  \<open>add\<close> appends an element that is not yet there, \<open>delete\<close> empties the slot of the
  element (\<open>None\<close>) without moving the others, and \<open>for ... of\<close> walks the slots by index
  over the list as it stands at each step, so that it skips an element deleted before its
  turn and reaches an element added during the walk.
\<close>

datatype thrown = Thrown "string option" | ThrownNullish

datatype manager_call = RegisterCleanup nat | UnregisterCleanup nat

type_synonym 'w callback = "string \<Rightarrow> 'w \<Rightarrow> thrown option \<times> 'w \<times> manager_call list"

text \<open>
  The manager, together with what a run of \<open>cleanup\<close> leaves behind: the world and the
  messages passed to \<open>logger.error\<close>.
\<close>

record 'w memoryManager =
  cleanupCallbacks :: "nat option list"
  world :: 'w
  errorLog :: "string option list"

definition registerCleanup :: "nat \<Rightarrow> 'w memoryManager \<Rightarrow> 'w memoryManager" where
  "registerCleanup callback mm =
     (if Some callback \<in> set (cleanupCallbacks mm) then mm
      else mm\<lparr>cleanupCallbacks := cleanupCallbacks mm @ [Some callback]\<rparr>)"

definition unregisterCleanup :: "nat \<Rightarrow> 'w memoryManager \<Rightarrow> 'w memoryManager" where
  "unregisterCleanup callback mm =
     mm\<lparr>cleanupCallbacks :=
          map (\<lambda>entry. if entry = Some callback then None else entry) (cleanupCallbacks mm)\<rparr>"

fun apply_call :: "manager_call \<Rightarrow> 'w memoryManager \<Rightarrow> 'w memoryManager" where
  "apply_call (RegisterCleanup callback) mm = registerCleanup callback mm"
| "apply_call (UnregisterCleanup callback) mm = unregisterCleanup callback mm"

text \<open>\<open>callback(reason)\<close>: the body runs on the world and makes its calls on the manager.\<close>

definition invoke ::
  "(nat \<Rightarrow> 'w callback) \<Rightarrow> nat \<Rightarrow> string \<Rightarrow> 'w memoryManager
   \<Rightarrow> thrown option \<times> 'w memoryManager" where
  "invoke bodies callback reason mm =
     (case bodies callback reason (world mm) of
        (thrown, w, made) \<Rightarrow> (thrown, fold apply_call made (mm\<lparr>world := w\<rparr>)))"

text \<open>
  \<open>cleanup(reason)\<close>: the loop over the set, from slot \<open>i\<close> on. The handler logs
  \<open>error.message\<close>; on a thrown \<open>null\<close> or \<open>undefined\<close> this read throws inside the handler,
  and the \<open>TypeError\<close> leaves \<open>cleanup\<close>. Callbacks that keep registering new callbacks keep
  the loop running: the result is \<open>None\<close> when \<open>cleanup\<close> does not return.
\<close>

datatype completion = Returned | UncaughtTypeError

partial_function (option) cleanup_loop ::
  "(nat \<Rightarrow> 'w callback) \<Rightarrow> string \<Rightarrow> nat \<Rightarrow> 'w memoryManager
   \<Rightarrow> (completion \<times> 'w memoryManager) option" where
  "cleanup_loop bodies reason i mm =
     (if i < length (cleanupCallbacks mm) then
        (case cleanupCallbacks mm ! i of
           None \<Rightarrow> cleanup_loop bodies reason (Suc i) mm
         | Some callback \<Rightarrow>
             (case invoke bodies callback reason mm of
                (None, mm1) \<Rightarrow> cleanup_loop bodies reason (Suc i) mm1
              | (Some (Thrown message), mm1) \<Rightarrow>
                  cleanup_loop bodies reason (Suc i)
                    (mm1\<lparr>errorLog := errorLog mm1 @ [message]\<rparr>)
              | (Some ThrownNullish, mm1) \<Rightarrow> Some (UncaughtTypeError, mm1)))
      else Some (Returned, mm))"

declare cleanup_loop.simps [code]

definition cleanup ::
  "(nat \<Rightarrow> 'w callback) \<Rightarrow> string \<Rightarrow> 'w memoryManager
   \<Rightarrow> (completion \<times> 'w memoryManager) option" where
  "cleanup bodies reason mm = cleanup_loop bodies reason 0 mm"

text \<open>
  The callbacks that are registered, in order. A callback is plain when it never throws
  \<open>null\<close> or \<open>undefined\<close> and leaves the manager alone; \<open>run_plain\<close> is what it does to the
  world.
\<close>

definition present :: "nat option list \<Rightarrow> nat list" where
  "present entries = map the (filter (\<lambda>entry. entry \<noteq> None) entries)"

definition registered :: "'w memoryManager \<Rightarrow> nat list" where
  "registered mm = present (cleanupCallbacks mm)"

definition plain :: "(nat \<Rightarrow> 'w callback) \<Rightarrow> nat \<Rightarrow> bool" where
  "plain bodies callback =
     (\<forall>reason w. fst (bodies callback reason w) \<noteq> Some ThrownNullish
                 \<and> snd (snd (bodies callback reason w)) = [])"

definition run_plain :: "(nat \<Rightarrow> 'w callback) \<Rightarrow> string \<Rightarrow> 'w \<Rightarrow> nat \<Rightarrow> 'w" where
  "run_plain bodies reason w callback = fst (snd (bodies callback reason w))"

section \<open>The token manager (class TokenManager, src/server/index.js)\<close>

subsection \<open>Data\<close>

text \<open>
  A token object. \<open>tid\<close> is the identity of the JavaScript object (two objects with equal
  fields are still two objects); it is not a field of the source. An absent property is
  \<open>None\<close>. Numbers are integers (milliseconds and seconds).
\<close>

record token =
  tid :: nat
  refresh_token :: string
  access_token :: "string option"
  expires_in :: "int option"
  timestamp :: "int option"
  enable :: "bool option"
  hasQuota :: "bool option"
  projectId :: "string option"

text \<open>The values of the \<open>RotationStrategy\<close> enumeration are strings.\<close>

definition ROUND_ROBIN :: string where "ROUND_ROBIN = ''round_robin''"
definition QUOTA_EXHAUSTED :: string where "QUOTA_EXHAUSTED = ''quota_exhausted''"
definition REQUEST_COUNT :: string where "REQUEST_COUNT = ''request_count''"

text \<open>
  The fields of the class. \<open>initPromise\<close> says whether \<open>_initPromise\<close> is set. \<open>saves\<close>
  lists the calls of \<open>store.mergeActiveTokens(this.tokens, tokenToUpdate)\<close> made through
  \<open>saveToFile\<close>, each with the array as it stands at the call: this is what the store is
  given to persist. \<open>next_tid\<close> is the supply of fresh object identities.
\<close>

record tm_state =
  tokens :: "token list"
  currentIndex :: nat
  rotationStrategy :: string
  requestCountPerToken :: nat
  tokenRequestCounts :: "string \<rightharpoonup> nat"
  availableQuotaTokenIndices :: "nat list"
  currentQuotaIndex :: nat
  initPromise :: bool
  saves :: "(token list \<times> token option) list"
  next_tid :: nat

text \<open>
  The constructor. \<open>DEFAULT_REQUEST_COUNT_PER_TOKEN\<close> is a constant of a module outside
  the source at hand and is a parameter here.
\<close>

definition tm_new :: "nat \<Rightarrow> tm_state" where
  "tm_new DEFAULT_REQUEST_COUNT_PER_TOKEN =
     \<lparr> tokens = [], currentIndex = 0, rotationStrategy = ROUND_ROBIN,
       requestCountPerToken = DEFAULT_REQUEST_COUNT_PER_TOKEN,
       tokenRequestCounts = Map.empty, availableQuotaTokenIndices = [],
       currentQuotaIndex = 0, initPromise = False, saves = [], next_tid = 0 \<rparr>"

text \<open>Errors thrown inside the class, with what \<open>error.statusCode\<close> reads on them.\<close>

datatype js_error = TokenError nat | TypeError | OtherError

fun statusCode :: "js_error \<Rightarrow> nat option" where
  "statusCode (TokenError n) = Some n"
| "statusCode TypeError = None"
| "statusCode OtherError = None"

text \<open>
  The outcome of the OAuth refresh request: the \<open>access_token\<close> and \<open>expires_in\<close> of the
  response, or a failure with the HTTP status of \<open>error.response\<close> when there is one.
\<close>

datatype refresh_outcome =
  RefreshOk "string option" "int option"
| RefreshFail "nat option"

record rotation_config =
  cfg_strategy :: "string option"
  cfg_requestCount :: "nat option"

text \<open>
  Everything an operation reads from outside the class: the clock, the store, the
  configuration, the network, and the quota and cooldown ledgers.
  \<open>None\<close> stands for a rejected promise (\<open>storeReadAll\<close>, \<open>storeGetSalt\<close>), for a call
  that throws (\<open>getConfigJson\<close>, \<open>generateTokenId\<close>, the ledgers), and for \<open>undefined\<close>
  (\<open>fetchProjectId\<close>, the field \<open>store._salt\<close>, an absent \<open>rotation\<close> section).
\<close>

record env =
  now :: int
  TOKEN_REFRESH_BUFFER :: int
  storeReadAll :: "token list option"
  storeGetSalt :: "string option"
  store_salt :: "string option"
  getConfigJson :: "rotation_config option option"
  refreshRequest :: "token \<Rightarrow> refresh_outcome"
  skipProjectIdFetch :: bool
  generateProjectId :: string
  fetchProjectId :: "token \<Rightarrow> string option"
  generateTokenId :: "string \<Rightarrow> string \<Rightarrow> string option"
  quota_hasQuotaForModel :: "string \<Rightarrow> string \<Rightarrow> bool option"
  cooldown_isAvailable :: "string \<Rightarrow> string \<Rightarrow> bool option"

text \<open>JavaScript truthiness of an optional number.\<close>

definition truthy_num :: "int option \<Rightarrow> bool" where
  "truthy_num v = (case v of None \<Rightarrow> False | Some n \<Rightarrow> n \<noteq> 0)"

text \<open>\<open>xs[i]\<close>, which is \<open>undefined\<close> out of range.\<close>

definition js_index :: "'a list \<Rightarrow> nat \<Rightarrow> 'a option" where
  "js_index xs i = (if i < length xs then Some (xs ! i) else None)"

subsection \<open>Bookkeeping\<close>

definition saveToFile :: "token option \<Rightarrow> tm_state \<Rightarrow> tm_state" where
  "saveToFile tokenToUpdate s = s\<lparr>saves := saves s @ [(tokens s, tokenToUpdate)]\<rparr>"

definition rebuildAvailableQuotaTokens :: "tm_state \<Rightarrow> tm_state" where
  "rebuildAvailableQuotaTokens s =
     (let available =
            filter (\<lambda>index. enable (tokens s ! index) \<noteq> Some False
                           \<and> hasQuota (tokens s ! index) \<noteq> Some False)
                   [0..<length (tokens s)]
      in s\<lparr>availableQuotaTokenIndices := available,
            currentQuotaIndex :=
              (if available = [] then 0 else currentQuotaIndex s mod length available)\<rparr>)"

definition loadRotationConfig :: "env \<Rightarrow> tm_state \<Rightarrow> tm_state" where
  "loadRotationConfig e s =
     (case getConfigJson e of
        None \<Rightarrow> s
      | Some None \<Rightarrow> s
      | Some (Some rotation) \<Rightarrow>
          s\<lparr>rotationStrategy :=
               (if truthy_str (cfg_strategy rotation) then the (cfg_strategy rotation)
                else ROUND_ROBIN),
            requestCountPerToken :=
               (case cfg_requestCount rotation of
                  None \<Rightarrow> 10
                | Some n \<Rightarrow> if n = 0 then 10 else n)\<rparr>)"

definition incrementRequestCount :: "string \<Rightarrow> tm_state \<Rightarrow> nat \<times> tm_state" where
  "incrementRequestCount tokenKey s =
     (let current = (case tokenRequestCounts s tokenKey of None \<Rightarrow> 0 | Some c \<Rightarrow> c);
          newCount = current + 1
      in (newCount, s\<lparr>tokenRequestCounts := (tokenRequestCounts s)(tokenKey \<mapsto> newCount)\<rparr>))"

definition resetRequestCount :: "string \<Rightarrow> tm_state \<Rightarrow> tm_state" where
  "resetRequestCount tokenKey s =
     s\<lparr>tokenRequestCounts := (tokenRequestCounts s)(tokenKey \<mapsto> 0)\<rparr>"

definition isExpired :: "env \<Rightarrow> token \<Rightarrow> bool" where
  "isExpired e token =
     (if \<not> truthy_num (timestamp token) \<or> \<not> truthy_num (expires_in token) then True
      else now e \<ge> the (timestamp token) + the (expires_in token) * 1000
                     - TOKEN_REFRESH_BUFFER e)"

text \<open>
  \<open>disableToken(token)\<close>. The log line reads \<open>token.access_token.slice(-8)\<close>, a
  \<open>TypeError\<close> when the token has no access token, before anything is changed. The flag is
  set on the object itself, so the array handed to the store shows it on the entry that
  is this object; then every entry with the same refresh token leaves the pool.
\<close>

definition disableToken :: "token \<Rightarrow> tm_state \<Rightarrow> js_error + tm_state" where
  "disableToken token s =
     (case access_token token of
        None \<Rightarrow> Inl TypeError
      | Some _ \<Rightarrow>
          let marked = map (\<lambda>t. if tid t = tid token then t\<lparr>enable := Some False\<rparr> else t)
                           (tokens s);
              s1 = s\<lparr>saves := saves s @ [(marked, None)]\<rparr>;
              s2 = s1\<lparr>tokenRequestCounts := (tokenRequestCounts s1)(refresh_token token := None)\<rparr>;
              s3 = s2\<lparr>tokens := filter (\<lambda>t. refresh_token t \<noteq> refresh_token token) (tokens s2)\<rparr>;
              s4 = s3\<lparr>currentIndex := currentIndex s3 mod max (length (tokens s3)) 1\<rparr>
          in Inr (rebuildAvailableQuotaTokens s4))"

definition disableCurrentToken :: "token \<Rightarrow> tm_state \<Rightarrow> js_error + tm_state" where
  "disableCurrentToken token s =
     (case find (\<lambda>t. access_token t = access_token token) (tokens s) of
        Some found \<Rightarrow> disableToken found s
      | None \<Rightarrow> Inr s)"

subsection \<open>Refreshing and preparing a token\<close>

text \<open>
  A token object is mutated in place; \<open>update_token\<close> writes the new value of the object
  into the pool entry that is this object.
\<close>

definition update_token :: "token \<Rightarrow> tm_state \<Rightarrow> tm_state" where
  "update_token token s =
     s\<lparr>tokens := map (\<lambda>t. if tid t = tid token then token else t) (tokens s)\<rparr>"

text \<open>
  \<open>refreshToken(token, silent)\<close>: the salt and the token ID are computed first (for the
  log); a failed request becomes a \<open>TokenError\<close> with \<open>statusCode || 500\<close>. The result is
  the error, if any, and the token object as it stands afterwards.
\<close>

definition refreshToken :: "env \<Rightarrow> token \<Rightarrow> tm_state \<Rightarrow> (js_error option \<times> token) \<times> tm_state" where
  "refreshToken e token s =
     (case storeGetSalt e of
        None \<Rightarrow> ((Some OtherError, token), s)
      | Some salt \<Rightarrow>
         (case generateTokenId e (refresh_token token) salt of
            None \<Rightarrow> ((Some OtherError, token), s)
          | Some tokenId \<Rightarrow>
             (case refreshRequest e token of
                RefreshOk a x \<Rightarrow>
                  let token1 = token\<lparr>access_token := a, expires_in := x,
                                     timestamp := Some (now e)\<rparr>
                  in ((None, token1), saveToFile (Some token1) (update_token token1 s))
              | RefreshFail status \<Rightarrow>
                  ((Some (TokenError (case status of None \<Rightarrow> 500
                                      | Some n \<Rightarrow> if n = 0 then 500 else n)), token), s))))"

datatype settled = FulfilledSuccess | FulfilledDisable | Rejected js_error

definition refreshTokenSafe :: "env \<Rightarrow> token \<Rightarrow> tm_state \<Rightarrow> settled \<times> tm_state" where
  "refreshTokenSafe e token s =
     (case refreshToken e token s of
        ((None, token1), s1) \<Rightarrow> (FulfilledSuccess, s1)
      | ((Some error, token1), s1) \<Rightarrow>
          if statusCode error = Some 403 \<or> statusCode error = Some 400
          then (FulfilledDisable, s1) else (Rejected error, s1))"

datatype prepared = PrepReady | PrepDisable

text \<open>
  \<open>_prepareToken(token)\<close>. The two log lines that read \<open>token.access_token.slice(-8)\<close>
  throw a \<open>TypeError\<close> on a token without access token.
\<close>

definition prepareToken ::
  "env \<Rightarrow> token \<Rightarrow> tm_state \<Rightarrow> ((js_error + prepared) \<times> token) \<times> tm_state" where
  "prepareToken e token s =
     (case (if isExpired e token then refreshToken e token s else ((None, token), s)) of
        ((Some error, token1), s1) \<Rightarrow> ((Inl error, token1), s1)
      | ((None, token1), s1) \<Rightarrow>
          if \<not> truthy_str (projectId token1) then
            if skipProjectIdFetch e then
              let token2 = token1\<lparr>projectId := Some (generateProjectId e)\<rparr>;
                  s2 = saveToFile (Some token2) (update_token token2 s1)
              in if access_token token2 = None then ((Inl TypeError, token2), s2)
                 else ((Inr PrepReady, token2), s2)
            else
              (case fetchProjectId e token1 of
                 None \<Rightarrow>
                   if access_token token1 = None then ((Inl TypeError, token1), s1)
                   else ((Inr PrepDisable, token1), s1)
               | Some pid \<Rightarrow>
                   let token2 = token1\<lparr>projectId := Some pid\<rparr>
                   in ((Inr PrepReady, token2), saveToFile (Some token2) (update_token token2 s1)))
          else ((Inr PrepReady, token1), s1))"

datatype action = ActDisable | ActSkip

text \<open>
  \<open>_handleTokenError(error, token)\<close> reads \<open>token.access_token\<close> first: on an undefined
  token this throws.
\<close>

definition handleTokenError :: "js_error \<Rightarrow> token option \<Rightarrow> js_error + action" where
  "handleTokenError error token =
     (case token of
        None \<Rightarrow> Inl TypeError
      | Some t \<Rightarrow>
          if statusCode error = Some 403 \<or> statusCode error = Some 400 then Inr ActDisable
          else Inr ActSkip)"

subsection \<open>Initialization and the concurrent refresh of expired tokens\<close>

text \<open>
  \<open>Promise.allSettled\<close> over the expired tokens: every refresh is started and every
  result is kept, fulfilled or rejected. The refreshes touch different token objects; the
  model runs them in pool order, which fixes no more than the order of the store writes.
\<close>

fun refresh_all :: "env \<Rightarrow> token list \<Rightarrow> tm_state \<Rightarrow> settled list \<times> tm_state" where
  "refresh_all e [] s = ([], s)"
| "refresh_all e (token # rest) s =
     (let (result, s1) = refreshTokenSafe e token s;
          (results, s2) = refresh_all e rest s1
      in (result # results, s2))"

text \<open>The loop \<open>for (const token of tokensToDisable) this.disableToken(token)\<close>.\<close>

fun disable_all :: "token list \<Rightarrow> tm_state \<Rightarrow> js_error option \<times> tm_state" where
  "disable_all [] s = (None, s)"
| "disable_all (token # rest) s =
     (case disableToken token s of
        Inl error \<Rightarrow> (Some error, s)
      | Inr s1 \<Rightarrow> disable_all rest s1)"

definition refreshExpiredTokensConcurrently :: "env \<Rightarrow> tm_state \<Rightarrow> js_error option \<times> tm_state" where
  "refreshExpiredTokensConcurrently e s =
     (let expiredTokens = filter (isExpired e) (tokens s)
      in if expiredTokens = [] then (None, s)
         else
           (case storeGetSalt e of
              None \<Rightarrow> (Some OtherError, s)
            | Some salt \<Rightarrow>
                if list_ex (\<lambda>token. generateTokenId e (refresh_token token) salt = None)
                     expiredTokens
                then (Some OtherError, s)
                else
                  let (results, s1) = refresh_all e expiredTokens s;
                      tokensToDisable =
                        map fst (filter (\<lambda>(token, result). result = FulfilledDisable)
                                        (zip expiredTokens results))
                  in disable_all tokensToDisable s1))"

text \<open>
  \<open>_initialize()\<close>: the whole body is inside \<open>try\<close>, and the handler empties the pool.
  Every token read from the store is copied into a new object.
\<close>

definition initialize :: "env \<Rightarrow> tm_state \<Rightarrow> tm_state" where
  "initialize e s =
     (case storeReadAll e of
        None \<Rightarrow> s\<lparr>tokens := []\<rparr>
      | Some tokenArray \<Rightarrow>
          let enabled = filter (\<lambda>token. enable token \<noteq> Some False) tokenArray;
              copies = map (\<lambda>(i, token). token\<lparr>tid := i\<rparr>) (enumerate (next_tid s) enabled);
              s1 = s\<lparr>tokens := copies, next_tid := next_tid s + length enabled\<rparr>;
              s2 = s1\<lparr>currentIndex := 0, tokenRequestCounts := Map.empty\<rparr>;
              s3 = loadRotationConfig e (rebuildAvailableQuotaTokens s2)
          in if tokens s3 = [] then s3
             else
               (case refreshExpiredTokensConcurrently e s3 of
                  (None, s4) \<Rightarrow> s4
                | (Some error, s4) \<Rightarrow> s4\<lparr>tokens := []\<rparr>))"

definition ensureInitialized :: "env \<Rightarrow> tm_state \<Rightarrow> tm_state" where
  "ensureInitialized e s =
     (if \<not> initPromise s then initialize e (s\<lparr>initPromise := True\<rparr>) else s)"

definition reload :: "env \<Rightarrow> tm_state \<Rightarrow> tm_state" where
  "reload e s = initialize e (s\<lparr>initPromise := True\<rparr>)"

subsection \<open>Model-aware checks\<close>

definition hasQuotaForModel :: "env \<Rightarrow> token option \<Rightarrow> string option \<Rightarrow> bool" where
  "hasQuotaForModel e token modelId =
     (case token of
        None \<Rightarrow> True
      | Some t \<Rightarrow>
          if \<not> truthy_str modelId then True
          else if \<not> truthy_str (store_salt e) then True
          else
            (case generateTokenId e (refresh_token t) (the (store_salt e)) of
               None \<Rightarrow> True
             | Some tokenId \<Rightarrow>
                 (case quota_hasQuotaForModel e tokenId (the modelId) of
                    None \<Rightarrow> True
                  | Some b \<Rightarrow> b)))"

definition isTokenAvailableForModel :: "env \<Rightarrow> token option \<Rightarrow> string option \<Rightarrow> bool" where
  "isTokenAvailableForModel e token modelId =
     (case token of
        None \<Rightarrow> True
      | Some t \<Rightarrow>
          if \<not> truthy_str modelId then True
          else if \<not> truthy_str (store_salt e) then True
          else
            (case generateTokenId e (refresh_token t) (the (store_salt e)) of
               None \<Rightarrow> True
             | Some tokenId \<Rightarrow>
                 (case cooldown_isAvailable e tokenId (the modelId) of
                    None \<Rightarrow> True
                  | Some b \<Rightarrow> b)))"

definition canUseTokenForModel :: "env \<Rightarrow> token option \<Rightarrow> string option \<Rightarrow> bool" where
  "canUseTokenForModel e token modelId =
     (if token = None \<or> \<not> truthy_str modelId then True
      else if \<not> isTokenAvailableForModel e token modelId then False
      else hasQuotaForModel e token modelId)"

definition checkAllTokensExhaustedForModel :: "env \<Rightarrow> string option \<Rightarrow> tm_state \<Rightarrow> bool" where
  "checkAllTokensExhaustedForModel e modelId s =
     (if \<not> truthy_str modelId \<or> tokens s = [] then False
      else \<not> list_ex (\<lambda>token. canUseTokenForModel e (Some token) modelId) (tokens s))"

definition resetAllQuotas :: "tm_state \<Rightarrow> tm_state" where
  "resetAllQuotas s =
     rebuildAvailableQuotaTokens
       (saveToFile None (s\<lparr>tokens := map (\<lambda>t. t\<lparr>hasQuota := Some True\<rparr>) (tokens s)\<rparr>))"

subsection \<open>Selection\<close>

text \<open>
  One iteration of a selection loop either goes on to the next index or leaves the
  function, by \<open>return\<close> (\<open>Inr\<close>, with the token or \<open>null\<close>) or by an exception that no
  handler catches (\<open>Inl\<close>).
\<close>

datatype step = Continue tm_state | Done "js_error + token option" tm_state

text \<open>The \<open>catch\<close> block of \<open>_getTokenForDefaultStrategy\<close>.\<close>

definition catch_default :: "js_error \<Rightarrow> token option \<Rightarrow> tm_state \<Rightarrow> step" where
  "catch_default error token s =
     (case handleTokenError error token of
        Inl thrown \<Rightarrow> Done (Inl thrown) s
      | Inr ActSkip \<Rightarrow> Continue s
      | Inr ActDisable \<Rightarrow>
          (case disableToken (the token) s of
             Inl thrown \<Rightarrow> Done (Inl thrown) s
           | Inr s1 \<Rightarrow> if tokens s1 = [] then Done (Inr None) s1 else Continue s1))"

text \<open>What the \<open>try\<close> block does once the token is prepared: move the cursor and return.\<close>

definition rotate_default :: "nat \<Rightarrow> token \<Rightarrow> tm_state \<Rightarrow> tm_state" where
  "rotate_default index token s =
     (let s1 = s\<lparr>currentIndex := index\<rparr>
      in if rotationStrategy s1 = ROUND_ROBIN
         then s1\<lparr>currentIndex := (currentIndex s1 + 1) mod length (tokens s1)\<rparr>
         else if rotationStrategy s1 = REQUEST_COUNT
         then
           let tokenKey = refresh_token token;
               count = (case tokenRequestCounts s1 tokenKey of None \<Rightarrow> 0 | Some c \<Rightarrow> c)
           in if count \<ge> requestCountPerToken s1
              then (resetRequestCount tokenKey s1)
                     \<lparr>currentIndex := (currentIndex s1 + 1) mod length (tokens s1)\<rparr>
              else s1
         else s1)"

text \<open>
  The body of the \<open>for\<close> loop of \<open>_getTokenForDefaultStrategy\<close>. An index beyond the
  (possibly shrunk) pool reads \<open>undefined\<close>: the check lets it pass, \<open>_prepareToken\<close>
  throws on it, and so does the handler.
\<close>

definition defaultStep ::
  "env \<Rightarrow> string option \<Rightarrow> bool \<Rightarrow> nat \<Rightarrow> nat \<Rightarrow> nat \<Rightarrow> tm_state \<Rightarrow> step" where
  "defaultStep e modelId allTokensExhausted totalTokens startIndex i s =
     (let index = (startIndex + i) mod totalTokens;
          token = js_index (tokens s) index
      in if truthy_str modelId \<and> \<not> allTokensExhausted
            \<and> \<not> canUseTokenForModel e token modelId
         then Continue s
         else
           (case token of
              None \<Rightarrow> catch_default TypeError None s
            | Some t \<Rightarrow>
                (case prepareToken e t s of
                   ((Inr PrepDisable, t1), s1) \<Rightarrow>
                     (case disableToken t1 s1 of
                        Inl thrown \<Rightarrow> catch_default thrown (Some t1) s1
                      | Inr s2 \<Rightarrow> if tokens s2 = [] then Done (Inr None) s2 else Continue s2)
                 | ((Inr PrepReady, t1), s1) \<Rightarrow>
                     Done (Inr (Some t1)) (rotate_default index t1 s1)
                 | ((Inl error, t1), s1) \<Rightarrow> catch_default error (Some t1) s1)))"

function defaultLoop ::
  "env \<Rightarrow> string option \<Rightarrow> bool \<Rightarrow> nat \<Rightarrow> nat \<Rightarrow> nat \<Rightarrow> tm_state
   \<Rightarrow> (js_error + token option) \<times> tm_state" where
  "defaultLoop e modelId allTokensExhausted totalTokens startIndex i s =
     (if i < totalTokens then
        (case defaultStep e modelId allTokensExhausted totalTokens startIndex i s of
           Continue s1 \<Rightarrow>
             defaultLoop e modelId allTokensExhausted totalTokens startIndex (Suc i) s1
         | Done result s1 \<Rightarrow> (result, s1))
      else (Inr None, s))"
  by pat_completeness auto
termination
  by (relation "measure (\<lambda>(e, modelId, allTokensExhausted, totalTokens, startIndex, i, s).
                           totalTokens - i)") auto

definition getTokenForDefaultStrategy ::
  "env \<Rightarrow> string option \<Rightarrow> tm_state \<Rightarrow> (js_error + token option) \<times> tm_state" where
  "getTokenForDefaultStrategy e modelId s =
     (let totalTokens = length (tokens s);
          startIndex = currentIndex s;
          allTokensExhausted =
            (if truthy_str modelId then checkAllTokensExhaustedForModel e modelId s else False)
      in defaultLoop e modelId allTokensExhausted totalTokens startIndex 0 s)"

text \<open>The \<open>catch\<close> block of \<open>_getTokenForQuotaExhaustedStrategy\<close>.\<close>

definition catch_quota :: "js_error \<Rightarrow> token option \<Rightarrow> tm_state \<Rightarrow> step" where
  "catch_quota error token s =
     (case handleTokenError error token of
        Inl thrown \<Rightarrow> Done (Inl thrown) s
      | Inr ActSkip \<Rightarrow> Continue s
      | Inr ActDisable \<Rightarrow>
          (case disableToken (the token) s of
             Inl thrown \<Rightarrow> Done (Inl thrown) s
           | Inr s1 \<Rightarrow>
               let s2 = rebuildAvailableQuotaTokens s1
               in if tokens s2 = [] \<or> availableQuotaTokenIndices s2 = []
                  then Done (Inr None) s2 else Continue s2))"

definition quotaStep ::
  "env \<Rightarrow> string option \<Rightarrow> bool \<Rightarrow> nat \<Rightarrow> nat \<Rightarrow> nat \<Rightarrow> tm_state \<Rightarrow> step" where
  "quotaStep e modelId allTokensExhausted totalAvailable startIndex i s =
     (let listIndex = (startIndex + i) mod totalAvailable;
          tokenIndex = js_index (availableQuotaTokenIndices s) listIndex;
          token = (case tokenIndex of None \<Rightarrow> None | Some ti \<Rightarrow> js_index (tokens s) ti)
      in if truthy_str modelId \<and> \<not> allTokensExhausted
            \<and> \<not> canUseTokenForModel e token modelId
         then Continue s
         else
           (case token of
              None \<Rightarrow> catch_quota TypeError None s
            | Some t \<Rightarrow>
                (case prepareToken e t s of
                   ((Inr PrepDisable, t1), s1) \<Rightarrow>
                     (case disableToken t1 s1 of
                        Inl thrown \<Rightarrow> catch_quota thrown (Some t1) s1
                      | Inr s2 \<Rightarrow>
                          let s3 = rebuildAvailableQuotaTokens s2
                          in if tokens s3 = [] \<or> availableQuotaTokenIndices s3 = []
                             then Done (Inr None) s3 else Continue s3)
                 | ((Inr PrepReady, t1), s1) \<Rightarrow>
                     Done (Inr (Some t1))
                          (s1\<lparr>currentIndex := the tokenIndex, currentQuotaIndex := listIndex\<rparr>)
                 | ((Inl error, t1), s1) \<Rightarrow> catch_quota error (Some t1) s1)))"

function quotaLoop ::
  "env \<Rightarrow> string option \<Rightarrow> bool \<Rightarrow> nat \<Rightarrow> nat \<Rightarrow> nat \<Rightarrow> tm_state
   \<Rightarrow> (js_error + token option) \<times> tm_state" where
  "quotaLoop e modelId allTokensExhausted totalAvailable startIndex i s =
     (if i < totalAvailable then
        (case quotaStep e modelId allTokensExhausted totalAvailable startIndex i s of
           Continue s1 \<Rightarrow>
             quotaLoop e modelId allTokensExhausted totalAvailable startIndex (Suc i) s1
         | Done result s1 \<Rightarrow> (result, s1))
      else
        (let s1 = resetAllQuotas s in (Inr (js_index (tokens s1) 0), s1)))"
  by pat_completeness auto
termination
  by (relation "measure (\<lambda>(e, modelId, allTokensExhausted, totalAvailable, startIndex, i, s).
                           totalAvailable - i)") auto

definition getTokenForQuotaExhaustedStrategy ::
  "env \<Rightarrow> string option \<Rightarrow> tm_state \<Rightarrow> (js_error + token option) \<times> tm_state" where
  "getTokenForQuotaExhaustedStrategy e modelId s =
     (let s1 = (if availableQuotaTokenIndices s = [] then resetAllQuotas s else s);
          totalAvailable = length (availableQuotaTokenIndices s1)
      in if totalAvailable = 0 then (Inr None, s1)
         else
           let allTokensExhausted =
                 (if truthy_str modelId then checkAllTokensExhaustedForModel e modelId s1
                  else False);
               startIndex = currentQuotaIndex s1 mod totalAvailable
           in quotaLoop e modelId allTokensExhausted totalAvailable startIndex 0 s1)"

definition getToken ::
  "env \<Rightarrow> string option \<Rightarrow> tm_state \<Rightarrow> (js_error + token option) \<times> tm_state" where
  "getToken e modelId s =
     (let s1 = ensureInitialized e s
      in if tokens s1 = [] then (Inr None, s1)
         else if rotationStrategy s1 = QUOTA_EXHAUSTED
         then getTokenForQuotaExhaustedStrategy e modelId s1
         else getTokenForDefaultStrategy e modelId s1)"

section \<open>The upstream client (src/server/index.js, third part)\<close>

text \<open>
  An upstream failure as \<open>handleApiError\<close> sees it: the status read by
  \<open>getUpstreamStatus\<close> and the body read by \<open>readUpstreamErrorBody\<close>. These two helpers
  and \<open>isCallerDoesNotHavePermission\<close> live in a module outside the source at hand; the
  predicate on the body is a parameter. \<open>createApiError(message, status, body)\<close> builds
  the error that is thrown; of the message the model keeps which of the three texts it is.
\<close>

record upstream_error =
  up_status :: "nat option"
  up_body :: string

datatype api_message =
  ExceededModelMaximumContext
| NoUsagePermissionDisabled
| ApiRequestFailed

datatype client_error =
  ApiError api_message "nat option" string
| Uncaught js_error

text \<open>
  \<open>handleApiError(error, token, dumpId)\<close> never returns: every path ends in \<open>throw\<close>.
  The result is the error thrown and the token manager afterwards. (The optional debug
  dump of the body is left out.)
\<close>

definition handleApiError ::
  "(string \<Rightarrow> bool) \<Rightarrow> upstream_error \<Rightarrow> token \<Rightarrow> tm_state \<Rightarrow> client_error \<times> tm_state" where
  "handleApiError isCallerDoesNotHavePermission error token s =
     (let status = up_status error; errorBody = up_body error
      in if status = Some 403 then
           if isCallerDoesNotHavePermission errorBody
           then (ApiError ExceededModelMaximumContext status errorBody, s)
           else
             (case disableCurrentToken token s of
                Inl thrown \<Rightarrow> (Uncaught thrown, s)
              | Inr s1 \<Rightarrow> (ApiError NoUsagePermissionDisabled status errorBody, s1))
         else (ApiError ApiRequestFailed status errorBody, s))"

definition DEFAULT_MODELS :: "string list" where
  "DEFAULT_MODELS =
     [''claude-opus-4-5'', ''claude-opus-4-5-thinking'', ''claude-sonnet-4-5-thinking'',
      ''claude-sonnet-4-5'', ''gemini-3-pro-high'', ''gemini-2.5-flash-lite'',
      ''gemini-3-pro-image'', ''gemini-3-pro-image-4K'', ''gemini-3-pro-image-2K'',
      ''gemini-2.5-flash-thinking'', ''gemini-2.5-pro'', ''gemini-2.5-flash'',
      ''gemini-3-pro-low'', ''chat_20706'', ''rev19-uic3-1p'', ''gpt-oss-120b-medium'',
      ''chat_23310'']"

record model_entry =
  model_id :: string
  model_object :: string
  created :: int
  owned_by :: string

record model_list =
  list_object :: string
  list_data :: "model_entry list"

definition model_of :: "int \<Rightarrow> string \<Rightarrow> model_entry" where
  "model_of created_at mid =
     \<lparr> model_id = mid, model_object = ''model'', created = created_at, owned_by = ''google'' \<rparr>"

definition getDefaultModelList :: "int \<Rightarrow> model_list" where
  "getDefaultModelList now_ms =
     \<lparr> list_object = ''list'',
       list_data = map (model_of (now_ms div 1000)) DEFAULT_MODELS \<rparr>"

record client_state =
  modelListCache :: "model_list option"
  modelListCacheTime :: int

text \<open>
  What the upstream answers to \<open>fetchAvailableModels\<close>: a failure, or the parsed body,
  which is falsy or an object of which only \<open>Object.keys(data.models || {})\<close> is read.
\<close>

datatype raw_models = RawFalsy | RawModels "string list"

datatype upstream_reply = UpstreamFails upstream_error | UpstreamReplies raw_models

text \<open>
  \<open>fetchRawModels(headers, token)\<close>: the request is inside \<open>try\<close>, and the handler calls
  \<open>handleApiError\<close>, which throws.
\<close>

definition fetchRawModels ::
  "(string \<Rightarrow> bool) \<Rightarrow> upstream_reply \<Rightarrow> token \<Rightarrow> tm_state
   \<Rightarrow> (client_error + raw_models) \<times> tm_state" where
  "fetchRawModels isCallerDoesNotHavePermission reply token s =
     (case reply of
        UpstreamReplies data \<Rightarrow> (Inr data, s)
      | UpstreamFails error \<Rightarrow>
          (let (thrown, s1) = handleApiError isCallerDoesNotHavePermission error token s
           in (Inl thrown, s1)))"

text \<open>The loop that appends the default models missing from the upstream's list.\<close>

definition add_default ::
  "int \<Rightarrow> string set \<Rightarrow> model_entry list \<Rightarrow> string \<Rightarrow> model_entry list" where
  "add_default created_at existingIds modelList defaultModel =
     (if defaultModel \<notin> existingIds then modelList @ [model_of created_at defaultModel]
      else modelList)"

text \<open>
  \<open>getAvailableModels()\<close>. \<open>ttl\<close> is what \<open>getModelCacheTTL()\<close> returns; \<open>upstream\<close> is the
  reply the request made with the selected token gets. The clock is read once.
\<close>

definition getAvailableModels ::
  "env \<Rightarrow> (string \<Rightarrow> bool) \<Rightarrow> int \<Rightarrow> (token \<Rightarrow> upstream_reply) \<Rightarrow> client_state \<Rightarrow> tm_state
   \<Rightarrow> (client_error + model_list) \<times> client_state \<times> tm_state" where
  "getAvailableModels e isCallerDoesNotHavePermission ttl upstream c s =
     (if modelListCache c \<noteq> None \<and> now e - modelListCacheTime c < ttl
      then (Inr (the (modelListCache c)), c, s)
      else
        (case getToken e None s of
           (Inl thrown, s1) \<Rightarrow> (Inl (Uncaught thrown), c, s1)
         | (Inr None, s1) \<Rightarrow> (Inr (getDefaultModelList (now e)), c, s1)
         | (Inr (Some token), s1) \<Rightarrow>
             (case fetchRawModels isCallerDoesNotHavePermission (upstream token) token s1 of
                (Inl thrown, s2) \<Rightarrow> (Inl thrown, c, s2)
              | (Inr RawFalsy, s2) \<Rightarrow> (Inr (getDefaultModelList (now e)), c, s2)
              | (Inr (RawModels ids), s2) \<Rightarrow>
                  let created_at = now e div 1000;
                      modelList = map (model_of created_at) ids;
                      existingIds = set (map model_id modelList);
                      modelList1 = foldl (add_default created_at existingIds) modelList
                                         DEFAULT_MODELS;
                      result = \<lparr> list_object = ''list'', list_data = modelList1 \<rparr>
                  in (Inr result,
                      c\<lparr>modelListCache := Some result, modelListCacheTime := now e\<rparr>, s2))))"

text \<open>The cache test at the head of \<open>getAvailableModels\<close> fails.\<close>

definition stale_cache :: "env \<Rightarrow> int \<Rightarrow> client_state \<Rightarrow> bool" where
  "stale_cache e ttl c = (\<not> (modelListCache c \<noteq> None \<and> now e - modelListCacheTime c < ttl))"

section \<open>Sequences of operations on the pool\<close>

text \<open>
  The two loop functions are unfolded by hand in the proofs.
\<close>

declare defaultLoop.simps [simp del] quotaLoop.simps [simp del]

text \<open>
  The operations a caller can run on the token manager, one after the other, each to its
  end: a selection, the two ways to disable a token, a hot reload, and the count of a
  request. An operation that throws leaves the state it had reached.
\<close>

datatype pool_op =
  GetToken env "string option"
| DisableToken token
| DisableCurrentToken token
| Reload env
| IncrementRequestCount string

fun apply_op :: "pool_op \<Rightarrow> tm_state \<Rightarrow> tm_state" where
  "apply_op (GetToken e modelId) s = snd (getToken e modelId s)"
| "apply_op (DisableToken token) s =
     (case disableToken token s of Inl thrown \<Rightarrow> s | Inr s1 \<Rightarrow> s1)"
| "apply_op (DisableCurrentToken token) s =
     (case disableCurrentToken token s of Inl thrown \<Rightarrow> s | Inr s1 \<Rightarrow> s1)"
| "apply_op (Reload e) s = reload e s"
| "apply_op (IncrementRequestCount tokenKey) s = snd (incrementRequestCount tokenKey s)"

definition run_ops :: "pool_op list \<Rightarrow> tm_state \<Rightarrow> tm_state" where
  "run_ops ops s = foldl (\<lambda>s1 op. apply_op op s1) s ops"

text \<open>The invariant of the pool: no entry has \<open>enable === false\<close>.\<close>

definition pool_enabled :: "tm_state \<Rightarrow> bool" where
  "pool_enabled s = (\<forall>t \<in> set (tokens s). enable t \<noteq> Some False)"

definition step_enabled :: "step \<Rightarrow> bool" where
  "step_enabled st =
     (case st of
        Continue s1 \<Rightarrow> pool_enabled s1
      | Done result s1 \<Rightarrow>
          pool_enabled s1
          \<and> (\<forall>token. result = Inr (Some token) \<longrightarrow> enable token \<noteq> Some False))"

definition result_enabled :: "(js_error + token option) \<times> tm_state \<Rightarrow> bool" where
  "result_enabled r =
     (pool_enabled (snd r)
      \<and> (\<forall>token. fst r = Inr (Some token) \<longrightarrow> enable token \<noteq> Some False))"

text \<open>
  What a step of a selection loop may return when a model is asked for: a token that
  passes the check, unless the pool was found exhausted for the model at the start.
\<close>

definition step_usable :: "env \<Rightarrow> string option \<Rightarrow> bool \<Rightarrow> step \<Rightarrow> bool" where
  "step_usable e modelId allTokensExhausted st =
     (case st of
        Continue s1 \<Rightarrow> True
      | Done result s1 \<Rightarrow>
          (\<forall>token. result = Inr (Some token) \<longrightarrow>
             allTokensExhausted \<or> canUseTokenForModel e (Some token) modelId))"

section \<open>Selection while other tasks run\<close>

text \<open>
  \<open>refreshToken\<close> awaits the answer of the OAuth server. While the call waits, other tasks
  of the process run, and they may call \<open>disableToken\<close> and \<open>reload\<close> on the manager.
  An interference says what they do: from the token object that the waiting call holds
  and the manager, as they are when the request is sent, it gives both as they are when
  the answer arrives. A token object is known by its \<open>tid\<close>, and a write to an object is
  seen by everyone who holds it: \<open>disableToken(target)\<close> sets \<open>enable = false\<close> on the held
  object when \<open>target\<close> is that object.
\<close>

type_synonym interference = "token \<Rightarrow> tm_state \<Rightarrow> token \<times> tm_state"

definition nothing_meanwhile :: interference where
  "nothing_meanwhile held s = (held, s)"



text \<open>
  \<open>refreshToken\<close> with an interference at its \<open>await\<close>: the request is built from the
  token as it is before, the answer is written to the object as it is after.
\<close>

definition refreshToken_during ::
  "env \<Rightarrow> interference \<Rightarrow> token \<Rightarrow> tm_state \<Rightarrow> (js_error option \<times> token) \<times> tm_state" where
  "refreshToken_during e meanwhile token s =
     (case storeGetSalt e of
        None \<Rightarrow> ((Some OtherError, token), s)
      | Some salt \<Rightarrow>
         (case generateTokenId e (refresh_token token) salt of
            None \<Rightarrow> ((Some OtherError, token), s)
          | Some tokenId \<Rightarrow>
             (let response = refreshRequest e token;
                  (token0, s0) = meanwhile token s
              in case response of
                   RefreshOk a x \<Rightarrow>
                     let token1 = token0\<lparr>access_token := a, expires_in := x,
                                         timestamp := Some (now e)\<rparr>
                     in ((None, token1), saveToFile (Some token1) (update_token token1 s0))
                 | RefreshFail status \<Rightarrow>
                     ((Some (TokenError (case status of None \<Rightarrow> 500
                                         | Some n \<Rightarrow> if n = 0 then 500 else n)), token0),
                      s0))))"

text \<open>
  \<open>_prepareToken\<close>, the two selection loops and \<open>getToken\<close>, as above, with the
  interference handed down to \<open>refreshToken\<close>. The refresh request is the one point of
  suspension kept here; initialization runs to its end. (When the pool is empty at the
  end of the wait, \<open>% this.tokens.length\<close> is \<open>NaN\<close> in JavaScript; the cursor of the model
  is then not that of the program, the token returned is.)
\<close>

definition prepareToken_during ::
  "env \<Rightarrow> interference \<Rightarrow> token \<Rightarrow> tm_state
   \<Rightarrow> ((js_error + prepared) \<times> token) \<times> tm_state" where
  "prepareToken_during e meanwhile token s =
     (case (if isExpired e token then refreshToken_during e meanwhile token s
            else ((None, token), s)) of
        ((Some error, token1), s1) \<Rightarrow> ((Inl error, token1), s1)
      | ((None, token1), s1) \<Rightarrow>
          if \<not> truthy_str (projectId token1) then
            if skipProjectIdFetch e then
              let token2 = token1\<lparr>projectId := Some (generateProjectId e)\<rparr>;
                  s2 = saveToFile (Some token2) (update_token token2 s1)
              in if access_token token2 = None then ((Inl TypeError, token2), s2)
                 else ((Inr PrepReady, token2), s2)
            else
              (case fetchProjectId e token1 of
                 None \<Rightarrow>
                   if access_token token1 = None then ((Inl TypeError, token1), s1)
                   else ((Inr PrepDisable, token1), s1)
               | Some pid \<Rightarrow>
                   let token2 = token1\<lparr>projectId := Some pid\<rparr>
                   in ((Inr PrepReady, token2), saveToFile (Some token2) (update_token token2 s1)))
          else ((Inr PrepReady, token1), s1))"

definition defaultStep_during ::
  "env \<Rightarrow> interference \<Rightarrow> string option \<Rightarrow> bool \<Rightarrow> nat \<Rightarrow> nat \<Rightarrow> nat \<Rightarrow> tm_state \<Rightarrow> step" where
  "defaultStep_during e meanwhile modelId allTokensExhausted totalTokens startIndex i s =
     (let index = (startIndex + i) mod totalTokens;
          token = js_index (tokens s) index
      in if truthy_str modelId \<and> \<not> allTokensExhausted
            \<and> \<not> canUseTokenForModel e token modelId
         then Continue s
         else
           (case token of
              None \<Rightarrow> catch_default TypeError None s
            | Some t \<Rightarrow>
                (case prepareToken_during e meanwhile t s of
                   ((Inr PrepDisable, t1), s1) \<Rightarrow>
                     (case disableToken t1 s1 of
                        Inl thrown \<Rightarrow> catch_default thrown (Some t1) s1
                      | Inr s2 \<Rightarrow> if tokens s2 = [] then Done (Inr None) s2 else Continue s2)
                 | ((Inr PrepReady, t1), s1) \<Rightarrow>
                     Done (Inr (Some t1)) (rotate_default index t1 s1)
                 | ((Inl error, t1), s1) \<Rightarrow> catch_default error (Some t1) s1)))"

function defaultLoop_during ::
  "env \<Rightarrow> interference \<Rightarrow> string option \<Rightarrow> bool \<Rightarrow> nat \<Rightarrow> nat \<Rightarrow> nat \<Rightarrow> tm_state
   \<Rightarrow> (js_error + token option) \<times> tm_state" where
  "defaultLoop_during e meanwhile modelId allTokensExhausted totalTokens startIndex i s =
     (if i < totalTokens then
        (case defaultStep_during e meanwhile modelId allTokensExhausted totalTokens startIndex i s of
           Continue s1 \<Rightarrow>
             defaultLoop_during e meanwhile modelId allTokensExhausted totalTokens startIndex
               (Suc i) s1
         | Done result s1 \<Rightarrow> (result, s1))
      else (Inr None, s))"
  by pat_completeness auto
termination
  by (relation "measure (\<lambda>(e, meanwhile, modelId, allTokensExhausted, totalTokens, startIndex,
                            i, s). totalTokens - i)") auto

declare defaultLoop_during.simps [simp del]

definition getTokenForDefaultStrategy_during ::
  "env \<Rightarrow> interference \<Rightarrow> string option \<Rightarrow> tm_state
   \<Rightarrow> (js_error + token option) \<times> tm_state" where
  "getTokenForDefaultStrategy_during e meanwhile modelId s =
     (let totalTokens = length (tokens s);
          startIndex = currentIndex s;
          allTokensExhausted =
            (if truthy_str modelId then checkAllTokensExhaustedForModel e modelId s else False)
      in defaultLoop_during e meanwhile modelId allTokensExhausted totalTokens startIndex 0 s)"

definition quotaStep_during ::
  "env \<Rightarrow> interference \<Rightarrow> string option \<Rightarrow> bool \<Rightarrow> nat \<Rightarrow> nat \<Rightarrow> nat \<Rightarrow> tm_state \<Rightarrow> step" where
  "quotaStep_during e meanwhile modelId allTokensExhausted totalAvailable startIndex i s =
     (let listIndex = (startIndex + i) mod totalAvailable;
          tokenIndex = js_index (availableQuotaTokenIndices s) listIndex;
          token = (case tokenIndex of None \<Rightarrow> None | Some ti \<Rightarrow> js_index (tokens s) ti)
      in if truthy_str modelId \<and> \<not> allTokensExhausted
            \<and> \<not> canUseTokenForModel e token modelId
         then Continue s
         else
           (case token of
              None \<Rightarrow> catch_quota TypeError None s
            | Some t \<Rightarrow>
                (case prepareToken_during e meanwhile t s of
                   ((Inr PrepDisable, t1), s1) \<Rightarrow>
                     (case disableToken t1 s1 of
                        Inl thrown \<Rightarrow> catch_quota thrown (Some t1) s1
                      | Inr s2 \<Rightarrow>
                          let s3 = rebuildAvailableQuotaTokens s2
                          in if tokens s3 = [] \<or> availableQuotaTokenIndices s3 = []
                             then Done (Inr None) s3 else Continue s3)
                 | ((Inr PrepReady, t1), s1) \<Rightarrow>
                     Done (Inr (Some t1))
                          (s1\<lparr>currentIndex := the tokenIndex, currentQuotaIndex := listIndex\<rparr>)
                 | ((Inl error, t1), s1) \<Rightarrow> catch_quota error (Some t1) s1)))"

function quotaLoop_during ::
  "env \<Rightarrow> interference \<Rightarrow> string option \<Rightarrow> bool \<Rightarrow> nat \<Rightarrow> nat \<Rightarrow> nat \<Rightarrow> tm_state
   \<Rightarrow> (js_error + token option) \<times> tm_state" where
  "quotaLoop_during e meanwhile modelId allTokensExhausted totalAvailable startIndex i s =
     (if i < totalAvailable then
        (case quotaStep_during e meanwhile modelId allTokensExhausted totalAvailable startIndex i s of
           Continue s1 \<Rightarrow>
             quotaLoop_during e meanwhile modelId allTokensExhausted totalAvailable startIndex
               (Suc i) s1
         | Done result s1 \<Rightarrow> (result, s1))
      else
        (let s1 = resetAllQuotas s in (Inr (js_index (tokens s1) 0), s1)))"
  by pat_completeness auto
termination
  by (relation "measure (\<lambda>(e, meanwhile, modelId, allTokensExhausted, totalAvailable,
                            startIndex, i, s). totalAvailable - i)") auto

declare quotaLoop_during.simps [simp del]

definition getTokenForQuotaExhaustedStrategy_during ::
  "env \<Rightarrow> interference \<Rightarrow> string option \<Rightarrow> tm_state
   \<Rightarrow> (js_error + token option) \<times> tm_state" where
  "getTokenForQuotaExhaustedStrategy_during e meanwhile modelId s =
     (let s1 = (if availableQuotaTokenIndices s = [] then resetAllQuotas s else s);
          totalAvailable = length (availableQuotaTokenIndices s1)
      in if totalAvailable = 0 then (Inr None, s1)
         else
           let allTokensExhausted =
                 (if truthy_str modelId then checkAllTokensExhaustedForModel e modelId s1
                  else False);
               startIndex = currentQuotaIndex s1 mod totalAvailable
           in quotaLoop_during e meanwhile modelId allTokensExhausted totalAvailable
                startIndex 0 s1)"

definition getToken_during ::
  "env \<Rightarrow> interference \<Rightarrow> string option \<Rightarrow> tm_state
   \<Rightarrow> (js_error + token option) \<times> tm_state" where
  "getToken_during e meanwhile modelId s =
     (let s1 = ensureInitialized e s
      in if tokens s1 = [] then (Inr None, s1)
         else if rotationStrategy s1 = QUOTA_EXHAUSTED
         then getTokenForQuotaExhaustedStrategy_during e meanwhile modelId s1
         else getTokenForDefaultStrategy_during e meanwhile modelId s1)"




text \<open>
  A token is spared when it is not disabled, or is one of the tokens in \<open>D\<close>; an
  interference spares \<open>D\<close> when it disables no other token.
\<close>

definition spared :: "nat set \<Rightarrow> token \<Rightarrow> bool" where
  "spared D t = (enable t \<noteq> Some False \<or> tid t \<in> D)"

definition pool_spared :: "nat set \<Rightarrow> tm_state \<Rightarrow> bool" where
  "pool_spared D s = (\<forall>t \<in> set (tokens s). spared D t)"




section \<open>What the refresh wave of initialization should leave\<close>

text \<open>
  The pool right after the store has been read: the enabled tokens of the store, each
  copied into a new object.
\<close>

definition loaded_tokens :: "env \<Rightarrow> tm_state \<Rightarrow> token list" where
  "loaded_tokens e s =
     (case storeReadAll e of
        None \<Rightarrow> []
      | Some tokenArray \<Rightarrow>
          map (\<lambda>(i, token). token\<lparr>tid := i\<rparr>)
              (enumerate (next_tid s)
                 (filter (\<lambda>token. enable token \<noteq> Some False) tokenArray)))"

text \<open>
  The token is expired, and the upstream answers its refresh with the given HTTP status.
\<close>

definition refresh_rejected :: "env \<Rightarrow> token \<Rightarrow> nat \<Rightarrow> bool" where
  "refresh_rejected e token status =
     (isExpired e token \<and> refreshRequest e token = RefreshFail (Some status))"

definition must_disable :: "env \<Rightarrow> token \<Rightarrow> bool" where
  "must_disable e token = (refresh_rejected e token 400 \<or> refresh_rejected e token 403)"

text \<open>The token object after a refresh, which changes it only when it succeeds.\<close>

definition refresh1 :: "env \<Rightarrow> token \<Rightarrow> token" where
  "refresh1 e token =
     (case refreshRequest e token of
        RefreshOk a x \<Rightarrow>
          token\<lparr>access_token := a, expires_in := x, timestamp := Some (now e)\<rparr>
      | RefreshFail status \<Rightarrow> token)"

definition after_refresh :: "env \<Rightarrow> token \<Rightarrow> token" where
  "after_refresh e token = (if isExpired e token then refresh1 e token else token)"

text \<open>How the promise of \<open>_refreshTokenSafe\<close> settles, read off the upstream's answer.\<close>

definition settle :: "env \<Rightarrow> token \<Rightarrow> settled" where
  "settle e token =
     (case refreshRequest e token of
        RefreshOk a x \<Rightarrow> FulfilledSuccess
      | RefreshFail status \<Rightarrow>
          (let code = (case status of None \<Rightarrow> 500 | Some n \<Rightarrow> if n = 0 then 500 else n)
           in if code = 403 \<or> code = 400 then FulfilledDisable
              else Rejected (TokenError code)))"

section \<open>Serving requests under the request-count strategy\<close>

text \<open>
  \<open>getToken\<close> never counts a request itself: the counter of a credential is raised by
  \<open>incrementRequestCount\<close>, which the caller invokes once for each request it completes
  with the token it was given. \<open>serve\<close> is one such request: select a token without a model
  constraint, then count the request against the token that was returned.
\<close>

definition count_of :: "tm_state \<Rightarrow> string \<Rightarrow> nat" where
  "count_of s tokenKey = (case tokenRequestCounts s tokenKey of None \<Rightarrow> 0 | Some c \<Rightarrow> c)"

definition serve :: "env \<Rightarrow> tm_state \<Rightarrow> tm_state" where
  "serve e s =
     (case getToken e None s of
        (Inr (Some token), s1) \<Rightarrow> snd (incrementRequestCount (refresh_token token) s1)
      | (Inr None, s1) \<Rightarrow> s1
      | (Inl thrown, s1) \<Rightarrow> s1)"

text \<open>
  The token under the cursor of a non-empty pool, and the test of the \<open>request_count\<close>
  branch of \<open>_getTokenForDefaultStrategy\<close> on it: \<open>count >= this.requestCountPerToken\<close>.
  \<open>advances e n s\<close> counts the calls, among \<open>n\<close> successive requests from \<open>s\<close>, at which this
  test succeeds, that is, at which the cursor is moved on.
\<close>

definition cursor_token :: "tm_state \<Rightarrow> token" where
  "cursor_token s = tokens s ! (currentIndex s mod length (tokens s))"

definition advance_due :: "tm_state \<Rightarrow> bool" where
  "advance_due s = (count_of s (refresh_token (cursor_token s)) \<ge> requestCountPerToken s)"

fun advances :: "env \<Rightarrow> nat \<Rightarrow> tm_state \<Rightarrow> nat" where
  "advances e 0 s = 0"
| "advances e (Suc n) s = (if advance_due s then 1 else 0) + advances e n (serve e s)"

definition total_count :: "tm_state \<Rightarrow> nat" where
  "total_count s = sum (count_of s) (set (map refresh_token (tokens s)))"

text \<open>
  An environment in which no refresh fails: the salt and the token IDs are available, every
  refresh request is answered with a new access token, and a project ID is found whenever
  one is looked for. A pool that is ready for the \<open>request_count\<close> strategy: initialized,
  not empty, and every token carries an access token.
\<close>

definition env_ready :: "env \<Rightarrow> bool" where
  "env_ready e =
     (storeGetSalt e \<noteq> None
      \<and> (\<forall>refresh salt. generateTokenId e refresh salt \<noteq> None)
      \<and> (\<forall>token. \<exists>a x. refreshRequest e token = RefreshOk (Some a) x)
      \<and> (skipProjectIdFetch e \<or> (\<forall>token. fetchProjectId e token \<noteq> None)))"

definition request_ready :: "tm_state \<Rightarrow> bool" where
  "request_ready s =
     (initPromise s \<and> rotationStrategy s = REQUEST_COUNT \<and> tokens s \<noteq> []
      \<and> distinct (map tid (tokens s))
      \<and> (\<forall>t \<in> set (tokens s). access_token t \<noteq> None))"

text \<open>
  What preparing a token leaves untouched, and how it may change the pool: the entry of
  the token is replaced by its refreshed version, or nothing changes.
\<close>

definition same_frame :: "tm_state \<Rightarrow> tm_state \<Rightarrow> bool" where
  "same_frame s s1 =
     (currentIndex s1 = currentIndex s \<and> rotationStrategy s1 = rotationStrategy s
      \<and> requestCountPerToken s1 = requestCountPerToken s
      \<and> tokenRequestCounts s1 = tokenRequestCounts s \<and> initPromise s1 = initPromise s)"

definition replaced :: "token \<Rightarrow> token \<Rightarrow> tm_state \<Rightarrow> tm_state \<Rightarrow> bool" where
  "replaced t t1 s s1 =
     (tokens s1 = tokens s \<and> t1 = t
      \<or> tokens s1 = map (\<lambda>x. if tid x = tid t then t1 else x) (tokens s))"

section \<open>Sample data\<close>

text \<open>Concrete values at which the theorems below are instantiated.\<close>

definition sample_token :: "nat \<Rightarrow> string \<Rightarrow> token" where
  "sample_token i name =
     \<lparr> tid = i, refresh_token = ''refresh-'' @ name, access_token = Some (''access-'' @ name),
       expires_in = Some 3599, timestamp = Some 1000000, enable = Some True,
       hasQuota = Some True, projectId = Some ''project'' \<rparr>"

definition tokenA :: token where "tokenA = sample_token 0 ''A''"
definition tokenB :: token where "tokenB = sample_token 1 ''B''"

text \<open>
  A quiet outside world: the clock stands shortly after the tokens were issued, the store
  holds the two sample tokens, and the ledgers know of no cooldown and no exhausted quota.
\<close>

definition sample_env :: env where
  "sample_env =
     \<lparr> now = 1000500, TOKEN_REFRESH_BUFFER = 300000,
       storeReadAll = Some [tokenA, tokenB], storeGetSalt = Some ''salt'',
       store_salt = Some ''salt'', getConfigJson = Some None,
       refreshRequest = (\<lambda>token. RefreshFail (Some 500)),
       skipProjectIdFetch = False, generateProjectId = ''generated'',
       fetchProjectId = (\<lambda>token. None),
       generateTokenId = (\<lambda>refresh salt. Some (salt @ refresh)),
       quota_hasQuotaForModel = (\<lambda>tokenId modelId. Some True),
       cooldown_isAvailable = (\<lambda>tokenId modelId. Some True) \<rparr>"

definition sample_pool :: "token list \<Rightarrow> tm_state" where
  "sample_pool ts =
     \<lparr> tokens = ts, currentIndex = 0, rotationStrategy = ROUND_ROBIN,
       requestCountPerToken = 2, tokenRequestCounts = Map.empty,
       availableQuotaTokenIndices = [0..<length ts], currentQuotaIndex = 0,
       initPromise = True, saves = [], next_tid = length ts \<rparr>"

definition sample_items :: "(string \<times> quota) list" where
  "sample_items =
     [(''claude-sonnet-4-5'', \<lparr> remaining = Some (to_double (1 / 2)) \<rparr>),
      (''claude-opus-4-5'', \<lparr> remaining = Some (to_double (20001 / 100000)) \<rparr>)]"

text \<open>
  Function objects that write what they do into a log, the world of these examples:
  \<open>0\<close> and \<open>2\<close> tidy up and return, \<open>1\<close> throws \<open>null\<close>, \<open>3\<close> throws an \<open>Error\<close>, and \<open>4\<close>
  unregisters \<open>2\<close>. \<open>manager_with\<close> registers the given callbacks on a new manager.
\<close>

definition sample_functions :: "nat \<Rightarrow> string list callback" where
  "sample_functions f reason w =
     (if f = 0 then (None, w @ [''trim chunk pool: '' @ reason], [])
      else if f = 1 then (Some ThrownNullish, w, [])
      else if f = 2 then (None, w @ [''clear model cache: '' @ reason], [])
      else if f = 3 then (Some (Thrown (Some ''boom'')), w, [])
      else if f = 4 then (None, w, [UnregisterCleanup 2])
      else (None, w, []))"

definition manager_with :: "nat list \<Rightarrow> string list memoryManager" where
  "manager_with callbacks =
     fold registerCleanup callbacks \<lparr> cleanupCallbacks = [], world = [], errorLog = [] \<rparr>"



definition sample_403 :: "string \<Rightarrow> upstream_error" where
  "sample_403 body = \<lparr> up_status = Some 403, up_body = body \<rparr>"

definition bodyIsCallerDoesNotHavePermission :: "string \<Rightarrow> bool" where
  "bodyIsCallerDoesNotHavePermission body = js_includes body ''The caller does not have permission''"

text \<open>The cooldown ledger holds \<open>tokenA\<close> in cooldown, for every model.\<close>

definition cooled_env :: env where
  "cooled_env = sample_env
     \<lparr> cooldown_isAvailable := (\<lambda>tokenId modelId. Some (tokenId \<noteq> ''saltrefresh-A'')) \<rparr>"

text \<open>
  The same ledger; the store holds \<open>tokenB\<close> with \<open>hasQuota = false\<close>, and the
  configuration selects the quota-exhausted strategy.
\<close>

definition quota_env :: env where
  "quota_env = cooled_env
     \<lparr> storeReadAll := Some [tokenA, tokenB\<lparr>hasQuota := Some False\<rparr>],
       getConfigJson := Some (Some \<lparr> cfg_strategy = Some QUOTA_EXHAUSTED,
                                      cfg_requestCount = None \<rparr>) \<rparr>"

text \<open>The same store and ledgers under the default configuration, round robin.\<close>

definition round_robin_env :: env where
  "round_robin_env = quota_env \<lparr> getConfigJson := Some None \<rparr>"

text \<open>
  Boot with four expired tokens: the refresh of \<open>A\<close> and \<open>B\<close> succeeds, that of \<open>C\<close> is
  answered with status 403 and that of \<open>D\<close> with status 500.
\<close>

definition tokenC :: token where "tokenC = sample_token 2 ''C''"
definition tokenD :: token where "tokenD = sample_token 3 ''D''"

definition wave_env :: env where
  "wave_env = sample_env
     \<lparr> now := 9000000,
       storeReadAll := Some [tokenA, tokenB, tokenC, tokenD],
       refreshRequest := (\<lambda>token.
         if refresh_token token = ''refresh-C'' then RefreshFail (Some 403)
         else if refresh_token token = ''refresh-D'' then RefreshFail (Some 500)
         else RefreshOk (Some ''renewed'') (Some 3599)) \<rparr>"

text \<open>The same boot; the stored token \<open>C\<close> has no access token.\<close>

definition bare_wave_env :: env where
  "bare_wave_env = wave_env
     \<lparr> storeReadAll := Some [tokenA, tokenB, tokenC\<lparr>access_token := None\<rparr>, tokenD] \<rparr>"

text \<open>
  An environment whose refresh requests all succeed, and a pool of two tokens rotated by
  request count, two requests for each token.
\<close>

definition ready_env :: env where
  "ready_env = sample_env
     \<lparr> refreshRequest := (\<lambda>token. RefreshOk (Some ''renewed'') (Some 3599)),
       skipProjectIdFetch := True \<rparr>"

definition count_pool :: tm_state where
  "count_pool = (sample_pool [tokenA, tokenB]) \<lparr> rotationStrategy := REQUEST_COUNT \<rparr>"


chapter \<open>Theorems\<close>

section \<open>Strings\<close>

lemma includes_iff: "js_includes s sub \<longleftrightarrow> (\<exists>ps ss. s = ps @ sub @ ss)"
proof (induction s)
  case Nil
  then show ?case by auto
next
  case (Cons c cs)
  show ?case
  proof
    assume "js_includes (c # cs) sub"
    then consider "prefix sub (c # cs)" | "js_includes cs sub" by auto
    then show "\<exists>ps ss. c # cs = ps @ sub @ ss"
    proof cases
      case 1
      then obtain ss where "c # cs = sub @ ss" by (auto simp: prefix_def)
      then have "c # cs = [] @ sub @ ss" by simp
      then show ?thesis by blast
    next
      case 2
      with Cons.IH obtain ps ss where "cs = ps @ sub @ ss" by blast
      then have "c # cs = (c # ps) @ sub @ ss" by simp
      then show ?thesis by blast
    qed
  next
    assume "\<exists>ps ss. c # cs = ps @ sub @ ss"
    then obtain ps ss where eq: "c # cs = ps @ sub @ ss" by blast
    show "js_includes (c # cs) sub"
    proof (cases ps)
      case Nil
      with eq have "prefix sub (c # cs)" by (simp add: prefix_def)
      then show ?thesis by simp
    next
      case (Cons p ps')
      with eq have "cs = ps' @ sub @ ss" by simp
      with Cons.IH have "js_includes cs sub" by blast
      then show ?thesis by simp
    qed
  qed
qed

section \<open>Quota groups\<close>

lemma groupKey_cases:
  "groupKey modelId =
     (if js_includes (toLowerCase modelId) ''claude'' then ''claude''
      else if js_includes (toLowerCase modelId) ''gemini-3-pro-image'' then ''banana''
      else if js_includes (toLowerCase modelId) ''gemini''
              \<or> js_includes (toLowerCase modelId) ''publishers/google/'' then ''gemini''
      else ''other'')"
  by (simp add: groupKey_def find_group_def QUOTA_GROUPS_def group_claude_def
      group_banana_def group_gemini_def group_other_def)

lemma groupKey_in_keys: "groupKey modelId \<in> group_keys"
  by (simp add: groupKey_cases group_keys_def)

lemma foldl_push_grouped:
  assumes "\<forall>k \<in> group_keys. g k \<noteq> None"
  shows "foldl push_grouped g models k =
     (if k \<in> group_keys
      then Some (the (g k) @ filter (\<lambda>entry. groupKey (fst entry) = k) models)
      else g k)"
  using assms
proof (induction models arbitrary: g)
  case Nil
  then show ?case by auto
next
  case (Cons a models)
  have in_keys: "groupKey (fst a) \<in> group_keys" by (rule groupKey_in_keys)
  then obtain arr where arr: "g (groupKey (fst a)) = Some arr" using Cons.prems by auto
  have step: "push_grouped g a = g(groupKey (fst a) \<mapsto> arr @ [a])"
    by (simp add: push_grouped_def Let_def arr)
  have pk: "push_grouped g a k = (if k = groupKey (fst a) then Some (arr @ [a]) else g k)"
    by (simp add: step)
  have "\<forall>k \<in> group_keys. (push_grouped g a) k \<noteq> None" using Cons.prems by (simp add: step)
  from Cons.IH[OF this]
  have IH: "foldl push_grouped (push_grouped g a) models k =
     (if k \<in> group_keys
      then Some (the (push_grouped g a k) @ filter (\<lambda>entry. groupKey (fst entry) = k) models)
      else push_grouped g a k)" .
  show ?case
  proof (cases "k = groupKey (fst a)")
    case True
    then show ?thesis using IH pk in_keys arr by simp
  next
    case False
    then show ?thesis using IH pk by auto
  qed
qed

lemma groupModels_by_groupKey:
  "groupModels models =
     (\<lambda>k. if k \<in> group_keys
          then Some (filter (\<lambda>entry. groupKey (fst entry) = k) models) else None)"
proof
  fix k
  have "\<forall>k \<in> group_keys. (grouped_init :: 'a grouped) k \<noteq> None"
    by (simp add: group_keys_def grouped_init_def)
  from foldl_push_grouped[OF this, of models k]
  have "groupModels models k =
     (if k \<in> group_keys
      then Some (the ((grouped_init :: 'a grouped) k)
                 @ filter (\<lambda>entry. groupKey (fst entry) = k) models)
      else (grouped_init :: 'a grouped) k)"
    by (simp only: groupModels_def)
  moreover have "(grouped_init :: 'a grouped) k = (if k \<in> group_keys then Some [] else None)"
    by (simp add: grouped_init_def group_keys_def)
  ultimately show "groupModels models k =
     (if k \<in> group_keys
      then Some (filter (\<lambda>entry. groupKey (fst entry) = k) models) else None)"
    by simp
qed

text \<open>
  Claim C1, as the code has it. The group of a model ID is the first group, in the order
  claude, banana, gemini, other, whose matcher accepts the ID; the matchers are
  case-insensitive substring tests and the last one accepts everything, so every ID has
  exactly one group. \<open>groupModels\<close> files every entry under the key of that group and
  under no other key.
\<close>

theorem quota_group_first_match:
  "map key QUOTA_GROUPS = [''claude'', ''banana'', ''gemini'', ''other'']
   \<and> groupKey modelId =
       (if js_includes (toLowerCase modelId) ''claude'' then ''claude''
        else if js_includes (toLowerCase modelId) ''gemini-3-pro-image'' then ''banana''
        else if js_includes (toLowerCase modelId) ''gemini''
                \<or> js_includes (toLowerCase modelId) ''publishers/google/'' then ''gemini''
        else ''other'')
   \<and> groupModels models =
       (\<lambda>k. if k \<in> {''claude'', ''gemini'', ''banana'', ''other''}
            then Some (filter (\<lambda>entry. groupKey (fst entry) = k) models) else None)"
proof -
  have "map key QUOTA_GROUPS = [''claude'', ''banana'', ''gemini'', ''other'']"
    by (simp add: QUOTA_GROUPS_def group_claude_def group_banana_def group_gemini_def
        group_other_def)
  moreover note groupKey_cases[of modelId]
  moreover have "groupModels models =
       (\<lambda>k. if k \<in> {''claude'', ''gemini'', ''banana'', ''other''}
            then Some (filter (\<lambda>entry. groupKey (fst entry) = k) models) else None)"
    using groupModels_by_groupKey[of models] by (simp only: group_keys_def)
  ultimately show ?thesis by blast
qed

text \<open>
  Claim C1 as stated fails: with the groups tested in the order claude, gemini, banana,
  other, the model \<open>gemini-3-pro-image\<close> would fall into gemini; the code puts it into
  banana.
\<close>

theorem quota_group_order_counterexample:
  "groupKey_spec_order ''gemini-3-pro-image'' = ''gemini''
   \<and> groupKey ''gemini-3-pro-image'' = ''banana''"
  by code_simp

section \<open>The quota summary\<close>

text \<open>
  The rounding: \<open>binade\<close> finds the leading bit, and \<open>to_double x\<close> is within half a unit
  in the last place of \<open>x\<close>.
\<close>

lemma pow2_power_int: "pow2 k = power_int 2 k"
  by (simp add: pow2_def power_int_def field_simps)

lemma pow2_pos: "0 < pow2 k"
  by (simp add: pow2_power_int)

lemma pow2_add: "pow2 (j + k) = pow2 j * pow2 k"
  by (simp add: pow2_power_int power_int_add)

lemma pow2_mono: "j \<le> k \<Longrightarrow> pow2 j \<le> pow2 k"
  by (simp add: pow2_power_int power_int_increasing)

lemma log2floor_nonneg: "0 \<le> log2floor n"
  by (induction n rule: log2floor.induct) (simp add: log2floor.simps)

lemma pow2_Suc: "pow2 (k + 1) = 2 * pow2 k"
  using pow2_add[of 1 k] by (simp add: pow2_def add.commute)

lemma log2floor_bounds:
  "1 \<le> n \<Longrightarrow> pow2 (log2floor n) \<le> of_int n \<and> of_int n < pow2 (log2floor n + 1)"
proof (induction n rule: log2floor.induct)
  case (1 n)
  show ?case
  proof (cases "n < 2")
    case True
    with "1.prems" have "n = 1" by simp
    then show ?thesis by (simp add: log2floor.simps pow2_def)
  next
    case False
    then have h: "1 \<le> n div 2" by simp
    define L where "L = log2floor (n div 2)"
    from "1.IH"[OF False h]
    have lo: "pow2 L \<le> of_int (n div 2)" and hi: "of_int (n div 2) < pow2 (L + 1)"
      by (simp_all add: L_def)
    have eq: "log2floor n = L + 1"
      using False by (simp add: log2floor.simps[of n] L_def)
    have nn: "0 \<le> L" unfolding L_def by (rule log2floor_nonneg)
    define P where "P = (2::int) ^ nat (L + 1)"
    have pw: "pow2 (L + 1) = of_int P" using nn by (simp add: pow2_def P_def)
    from hi have "n div 2 < P" unfolding pw by (simp only: of_int_less_iff)
    then have "n < 2 * P" by linarith
    then have "(of_int n :: rat) < of_int (2 * P)" by (simp only: of_int_less_iff)
    moreover have "pow2 (L + 1 + 1) = of_int (2 * P)"
      using pow2_Suc[of "L + 1"] by (simp add: pw)
    ultimately have up: "of_int n < pow2 (L + 1 + 1)" by (simp only:)
    have "2 * (n div 2) \<le> n" by linarith
    then have "(of_int (2 * (n div 2)) :: rat) \<le> of_int n" by (simp only: of_int_le_iff)
    then have "2 * pow2 L \<le> of_int n" using lo by simp
    then have low: "pow2 (L + 1) \<le> of_int n" by (simp add: pow2_Suc)
    from low up show ?thesis by (simp add: eq)
  qed
qed

lemma binade_bounds:
  assumes "x \<noteq> 0"
  shows "pow2 (binade x) \<le> \<bar>x\<bar> \<and> \<bar>x\<bar> < pow2 (binade x + 1)"
proof -
  obtain n d where q: "quotient_of \<bar>x\<bar> = (n, d)" by (metis surj_pair)
  have d: "0 < d" using quotient_of_denom_pos[OF q] .
  have x: "\<bar>x\<bar> = of_int n / of_int d" using quotient_of_div[OF q] .
  have "0 < \<bar>x\<bar>" using assms by simp
  then have n: "0 < n" using x d by (simp add: zero_less_divide_iff)
  define a where "a = log2floor n"
  define b where "b = log2floor d"
  from log2floor_bounds[of n] n have na: "pow2 a \<le> of_int n" "of_int n < pow2 (a + 1)"
    by (simp_all add: a_def)
  from log2floor_bounds[of d] d have db: "pow2 b \<le> of_int d" "of_int d < pow2 (b + 1)"
    by (simp_all add: b_def)
  have dpos: "(0::rat) < of_int d" using d by simp
  have lo: "pow2 (a - b - 1) < \<bar>x\<bar>"
  proof -
    have "pow2 (a - b - 1) * of_int d < pow2 (a - b - 1) * pow2 (b + 1)"
      using db(2) pow2_pos[of "a - b - 1"] by simp
    also have "\<dots> = pow2 a" by (simp flip: pow2_add)
    also have "\<dots> \<le> of_int n" by (rule na(1))
    finally show ?thesis using dpos by (simp add: x pos_less_divide_eq)
  qed
  have hi: "\<bar>x\<bar> < pow2 (a - b + 1)"
  proof -
    have "of_int n < pow2 (a + 1)" by (rule na(2))
    also have "\<dots> = pow2 (a - b + 1) * pow2 b" by (simp flip: pow2_add)
    also have "\<dots> \<le> pow2 (a - b + 1) * of_int d"
      using db(1) pow2_pos[of "a - b + 1"] by simp
    finally show ?thesis using dpos by (simp add: x pos_divide_less_eq)
  qed
  show ?thesis
  proof (cases "pow2 (a - b) \<le> \<bar>x\<bar>")
    case True
    then have "binade x = a - b" by (simp add: binade_def q a_def b_def)
    with True hi show ?thesis by simp
  next
    case False
    then have "binade x = a - b - 1" by (simp add: binade_def q a_def b_def)
    with False lo show ?thesis by simp
  qed
qed

lemma round_half_even_error: "\<bar>of_int (round_half_even q) - q\<bar> \<le> 1 / 2"
proof -
  define f where "f = \<lfloor>q\<rfloor>"
  define r where "r = q - of_int f"
  have r: "0 \<le> r" "r < 1" unfolding r_def f_def by linarith+
  have q: "q = of_int f + r" by (simp add: r_def)
  have "round_half_even q = (if r < 1 / 2 then f else if r > 1 / 2 then f + 1
                              else if even f then f else f + 1)"
    by (simp add: round_half_even_def Let_def f_def r_def)
  then show ?thesis using r by (auto simp: q abs_if)
qed

lemma to_double_error:
  "\<bar>to_double x - x\<bar> \<le> pow2 (max (binade x) (- 1022) - 52) / 2"
proof (cases "x = 0")
  case True
  then show ?thesis using pow2_pos[of "max (binade 0) (- 1022) - 52"] by (simp add: to_double_def)
next
  case False
  define ulp where "ulp = pow2 (max (binade x) (- 1022) - 52)"
  have pos: "0 < ulp" by (simp add: ulp_def pow2_pos)
  have "to_double x - x = (of_int (round_half_even (x / ulp)) - x / ulp) * ulp"
    using False pos by (simp add: to_double_def Let_def ulp_def[symmetric] field_simps)
  then have "\<bar>to_double x - x\<bar> = \<bar>of_int (round_half_even (x / ulp)) - x / ulp\<bar> * ulp"
    using pos by (simp add: abs_mult)
  also have "\<dots> \<le> 1 / 2 * ulp"
    using round_half_even_error[of "x / ulp"] pos by (simp add: mult_right_mono)
  finally show ?thesis by (simp add: ulp_def)
qed

text \<open>The running minimum and the clamp.\<close>

lemma min_step_min: "min_step m a = min (clamp01 (remaining (snd a))) m"
  by (simp add: min_step_def Let_def min_def)

lemma Min_insert_min:
  fixes a m :: "'a :: linorder"
  assumes "finite S"
  shows "Min (insert (min a m) S) = Min (insert m (insert a S))"
proof (cases "S = {}")
  case True
  then show ?thesis by (simp add: min.commute)
next
  case False
  with assms show ?thesis by (simp add: min.assoc min.commute min.left_commute)
qed

lemma foldl_min_step:
  "foldl min_step m items
     = Min (insert m ((\<lambda>item. clamp01 (remaining (snd item))) ` set items))"
proof (induction items arbitrary: m)
  case Nil
  show ?case by simp
next
  case (Cons a items)
  show ?case using Cons.IH[of "min_step m a"]
    by (simp add: min_step_min Min_insert_min)
qed

lemma clamp01_range: "0 \<le> clamp01 v \<and> clamp01 v \<le> 1"
  by (simp add: clamp01_def split: option.splits)

lemma clamp01_fraction: "0 \<le> f \<Longrightarrow> f \<le> 1 \<Longrightarrow> clamp01 (Some f) = f"
  by (simp add: clamp01_def)

lemma Min_clamped_range:
  assumes "items \<noteq> []"
  shows "0 \<le> Min ((\<lambda>item. clamp01 (remaining (snd item))) ` set items)"
    and "Min ((\<lambda>item. clamp01 (remaining (snd item))) ` set items) \<le> 1"
proof -
  let ?S = "(\<lambda>item. clamp01 (remaining (snd item))) ` set items"
  have fin: "finite ?S" and ne: "?S \<noteq> {}" using assms by auto
  from Min_in[OF fin ne] clamp01_range show "0 \<le> Min ?S" "Min ?S \<le> 1" by auto
qed

lemma foldl_min_step_nonempty:
  assumes "items \<noteq> []"
  shows "foldl min_step 1 items = Min ((\<lambda>item. clamp01 (remaining (snd item))) ` set items)"
proof -
  let ?S = "(\<lambda>item. clamp01 (remaining (snd item))) ` set items"
  have fin: "finite ?S" and ne: "?S \<noteq> {}" using assms by auto
  have le: "Min ?S \<le> 1" using Min_clamped_range(2)[OF assms] .
  have "Min (insert 1 ?S) = min 1 (Min ?S)" using fin ne by (rule Min_insert)
  also have "\<dots> = Min ?S" using le by (simp add: min_def)
  finally show ?thesis by (simp add: foldl_min_step)
qed

text \<open>
  Whatever the items hold, the percentage is that of the least clamped value: a value
  below 0 or no finite number counts as 0, a value above 1 as 1.
\<close>

lemma summarizeGroup_clamped:
  assumes "items \<noteq> []"
  shows "percentage (summarizeGroup items requestCount)
           = dmul (Min ((\<lambda>item. clamp01 (remaining (snd item))) ` set items)) 100"
  using assms Min_clamped_range[OF assms]
  by (simp add: summarizeGroup_def Let_def toPercentage_def foldl_min_step_nonempty
      clamp01_fraction)

lemma fractions_of_items:
  assumes "map (\<lambda>item. remaining (snd item)) items = map Some fractions"
    and "\<forall>f \<in> set fractions. 0 \<le> f \<and> f \<le> 1"
  shows "(\<lambda>item. clamp01 (remaining (snd item))) ` set items = set fractions"
proof -
  have "(\<lambda>item. clamp01 (remaining (snd item))) ` set items
          = set (map clamp01 (map (\<lambda>item. remaining (snd item)) items))"
    by (simp add: image_image)
  also have "\<dots> = set (map clamp01 (map Some fractions))" by (simp only: assms(1))
  also have "\<dots> = set (map (\<lambda>f. f) fractions)"
    using assms(2) by (auto simp: clamp01_fraction image_iff)
  finally show ?thesis by simp
qed

text \<open>
  Claim C2. For a group with at least one model, whose models report remaining fractions
  between 0 and 1, the percentage of the summary is \<open>remaining_pct\<close>, the minimum remaining
  fraction over the group's models as a percentage, and the estimated number of requests
  is \<open>floor(remaining_pct / 0.6667) - request_counter\<close>, never below 0, in the arithmetic
  of JavaScript numbers.
\<close>

theorem summarizeGroup_estimate:
  assumes "items \<noteq> []"
    and "map (\<lambda>item. remaining (snd item)) items = map Some fractions"
    and "\<forall>f \<in> set fractions. 0 \<le> f \<and> f \<le> 1"
  shows "percentage (summarizeGroup items requestCount) = spec_remaining_pct fractions
       \<and> estimatedRequests (summarizeGroup items requestCount)
           = spec_estimate fractions requestCount"
proof -
  let ?S = "(\<lambda>item. clamp01 (remaining (snd item))) ` set items"
  have S: "?S = set fractions" using fractions_of_items[OF assms(2,3)] .
  have m: "foldl min_step 1 items = Min (set fractions)"
    using foldl_min_step_nonempty[OF assms(1)] S by simp
  have "0 \<le> Min (set fractions)" "Min (set fractions) \<le> 1"
    using Min_clamped_range[OF assms(1)] S by simp_all
  then have c: "clamp01 (Some (Min (set fractions))) = Min (set fractions)"
    by (rule clamp01_fraction)
  show ?thesis
    using assms(1)
    by (simp add: summarizeGroup_def Let_def toPercentage_def m c spec_remaining_pct_def
        spec_estimate_def)
qed

theorem summarizeGroup_estimate_witness:
  "percentage (summarizeGroup sample_items 3) = 2814890504594915 / 140737488355328
   \<and> estimatedRequests (summarizeGroup sample_items 3) = 27"
proof -
  have h1: "sample_items \<noteq> []" by (simp add: sample_items_def)
  have h2: "map (\<lambda>item. remaining (snd item)) sample_items
              = map Some [to_double (1 / 2), to_double (20001 / 100000)]"
    by (simp add: sample_items_def)
  have d1: "to_double (1 / 2) = 1 / 2" by code_simp
  have d2: "to_double (20001 / 100000) = 7206119691762983 / 36028797018963968" by code_simp
  have h3: "\<forall>f \<in> set [to_double (1 / 2), to_double (20001 / 100000)]. 0 \<le> f \<and> f \<le> 1"
    by (simp add: d1 d2)
  have p: "spec_remaining_pct [to_double (1 / 2), to_double (20001 / 100000)]
             = 2814890504594915 / 140737488355328"
    by code_simp
  have q: "spec_estimate [to_double (1 / 2), to_double (20001 / 100000)] 3 = 27"
    by code_simp
  from summarizeGroup_estimate[OF h1 h2 h3, of 3] p q show ?thesis by simp
qed

text \<open>
  Rounding shows in the figure: for a remaining fraction of 0.06667 the product with 100
  is a double just below 6.667, and the estimate is 9 where exact arithmetic on the
  decimals gives 10.
\<close>

lemma summarizeGroup_rounding:
  "estimatedRequests
     (summarizeGroup [(''claude-opus-4-5'', \<lparr> remaining = Some (to_double (6667 / 100000)) \<rparr>)] 0)
     = 9
   \<and> \<lfloor>(6667 / 100000 * 100) / (6667 / 10000 :: rat)\<rfloor> = 10"
proof -
  have "estimatedRequests
     (summarizeGroup [(''claude-opus-4-5'', \<lparr> remaining = Some (to_double (6667 / 100000)) \<rparr>)] 0)
     = 9"
    by code_simp
  then show ?thesis by simp
qed

section \<open>Requests that match no route\<close>






section \<open>The memory manager\<close>

text \<open>
  When every registered callback is plain, \<open>cleanup\<close> returns, the set is as before, and
  the world has gone through every registered callback once, in registration order.
\<close>

lemma present_drop_Suc:
  "i < length xs \<Longrightarrow>
   present (drop i xs)
     = (case xs ! i of None \<Rightarrow> [] | Some x \<Rightarrow> [x]) @ present (drop (Suc i) xs)"
  by (simp add: Cons_nth_drop_Suc[symmetric] present_def split: option.splits)

lemma cleanup_loop_plain:
  assumes "\<forall>callback \<in> set (registered mm). plain bodies callback"
  shows "\<exists>mm'. cleanup_loop bodies reason i mm = Some (Returned, mm')
           \<and> cleanupCallbacks mm' = cleanupCallbacks mm
           \<and> world mm'
               = foldl (run_plain bodies reason) (world mm)
                       (present (drop i (cleanupCallbacks mm)))"
  using assms
proof (induction "length (cleanupCallbacks mm) - i" arbitrary: i mm)
  case 0
  then show ?case by (simp add: cleanup_loop.simps[of bodies reason i mm] present_def)
next
  case (Suc n)
  then have lt: "i < length (cleanupCallbacks mm)" by simp
  note dr = present_drop_Suc[OF lt]
  show ?case
  proof (cases "cleanupCallbacks mm ! i")
    case None
    have n: "n = length (cleanupCallbacks mm) - Suc i" using Suc.hyps(2) by simp
    from Suc.hyps(1)[OF n Suc.prems] obtain mm' where
      "cleanup_loop bodies reason (Suc i) mm = Some (Returned, mm')"
      "cleanupCallbacks mm' = cleanupCallbacks mm"
      "world mm' = foldl (run_plain bodies reason) (world mm)
                       (present (drop (Suc i) (cleanupCallbacks mm)))"
      by blast
    with lt None dr show ?thesis
      by (simp add: cleanup_loop.simps[of bodies reason i mm])
  next
    case (Some callback)
    then have "Some callback \<in> set (cleanupCallbacks mm)" using lt by (metis nth_mem)
    then have "callback \<in> set (registered mm)"
      by (force simp: registered_def present_def)
    with Suc.prems have pl: "plain bodies callback" by blast
    obtain thrown w made where r: "bodies callback reason (world mm) = (thrown, w, made)"
      by (metis prod_cases3)
    from pl r have nn: "thrown \<noteq> Some ThrownNullish" and made: "made = []"
      unfolding plain_def by (metis fst_conv, metis snd_conv)
    have w: "w = run_plain bodies reason (world mm) callback"
      by (simp add: run_plain_def r)
    define mm1 where "mm1 = mm\<lparr>world := w\<rparr>"
    have inv: "invoke bodies callback reason mm = (thrown, mm1)"
      by (simp add: invoke_def r made mm1_def)
    show ?thesis
    proof (cases thrown)
      case None
      have n: "n = length (cleanupCallbacks mm1) - Suc i" using Suc.hyps(2) by (simp add: mm1_def)
      have pr: "\<forall>callback \<in> set (registered mm1). plain bodies callback"
        using Suc.prems by (simp add: registered_def mm1_def)
      from Suc.hyps(1)[OF n pr] obtain mm' where
        "cleanup_loop bodies reason (Suc i) mm1 = Some (Returned, mm')"
        "cleanupCallbacks mm' = cleanupCallbacks mm1"
        "world mm' = foldl (run_plain bodies reason) (world mm1)
                         (present (drop (Suc i) (cleanupCallbacks mm1)))"
        by blast
      with lt Some inv None dr w show ?thesis
        by (simp add: cleanup_loop.simps[of bodies reason i mm] mm1_def)
    next
      case (Some t)
      with nn obtain message where t: "t = Thrown message" by (cases t) auto
      define mm2 where "mm2 = mm1\<lparr>errorLog := errorLog mm1 @ [message]\<rparr>"
      have n: "n = length (cleanupCallbacks mm2) - Suc i"
        using Suc.hyps(2) by (simp add: mm1_def mm2_def)
      have pr: "\<forall>callback \<in> set (registered mm2). plain bodies callback"
        using Suc.prems by (simp add: registered_def mm1_def mm2_def)
      from Suc.hyps(1)[OF n pr] obtain mm' where
        "cleanup_loop bodies reason (Suc i) mm2 = Some (Returned, mm')"
        "cleanupCallbacks mm' = cleanupCallbacks mm2"
        "world mm' = foldl (run_plain bodies reason) (world mm2)
                         (present (drop (Suc i) (cleanupCallbacks mm2)))"
        by blast
      with lt \<open>cleanupCallbacks mm ! i = Some callback\<close> inv Some t dr w show ?thesis
        by (simp add: cleanup_loop.simps[of bodies reason i mm] mm1_def mm2_def)
    qed
  qed
qed

lemma cleanup_plain:
  assumes "\<forall>callback \<in> set (registered mm). plain bodies callback"
  shows "\<exists>mm'. cleanup bodies reason mm = Some (Returned, mm')
           \<and> cleanupCallbacks mm' = cleanupCallbacks mm
           \<and> world mm' = foldl (run_plain bodies reason) (world mm) (registered mm)"
  using cleanup_loop_plain[OF assms, of reason 0] by (simp add: cleanup_def registered_def)

text \<open>
  Claim C10. \<open>cleanup\<close> is to call every registered callback once and to catch what a
  callback throws. It does so for callbacks that throw an \<open>Error\<close> (lemma \<open>cleanup_plain\<close>
  and the second run below: the callback after the throwing one has run, the message is
  logged, \<open>cleanup\<close> returns). It does not when a callback throws \<open>null\<close>: in the first run
  the handler itself throws, the \<open>TypeError\<close> reaches the caller of \<open>cleanup\<close>, and the
  callback registered after the throwing one has not run.
\<close>

theorem cleanup_thrown_null_escapes:
  "cleanup sample_functions ''timer'' (manager_with [0, 1, 2])
     = Some (UncaughtTypeError,
             \<lparr> cleanupCallbacks = [Some 0, Some 1, Some 2],
               world = [''trim chunk pool: timer''], errorLog = [] \<rparr>)
   \<and> cleanup sample_functions ''timer'' (manager_with [0, 3, 2])
     = Some (Returned,
             \<lparr> cleanupCallbacks = [Some 0, Some 3, Some 2],
               world = [''trim chunk pool: timer'', ''clear model cache: timer''],
               errorLog = [Some ''boom''] \<rparr>)"
  by code_simp

text \<open>
  A callback that unregisters a later one keeps it from running in the same call: the
  slot is empty when the loop reaches it.
\<close>

lemma cleanup_skips_unregistered:
  "cleanup sample_functions ''timer'' (manager_with [0, 4, 2])
     = Some (Returned,
             \<lparr> cleanupCallbacks = [Some 0, Some 4, None],
               world = [''trim chunk pool: timer''], errorLog = [] \<rparr>)"
  by code_simp


section \<open>Disabling a token\<close>

lemma find_Some_D: "find P xs = Some x \<Longrightarrow> x \<in> set xs \<and> P x"
  by (induction xs) (auto split: if_splits)

lemma disableToken_Inr:
  assumes "access_token token \<noteq> None"
  shows "\<exists>s'. disableToken token s = Inr s'
          \<and> tokens s' = filter (\<lambda>t. refresh_token t \<noteq> refresh_token token) (tokens s)
          \<and> saves s' = saves s @
               [(map (\<lambda>t. if tid t = tid token then t\<lparr>enable := Some False\<rparr> else t) (tokens s),
                 None)]"
  using assms
  by (auto simp: disableToken_def Let_def rebuildAvailableQuotaTokens_def)

section \<open>Upstream errors with status 403\<close>

text \<open>
  Claim C3, as the code has it. On an upstream error with status 403 whose body says that
  the caller does not have permission, the request fails with the exceeded-context error
  and the token manager is left as it was. On any other 403 body the request fails with
  the no-permission error, and the pool entry with the access token of the token in use
  (if there is one) is disabled: the store is handed the pool with \<open>enable = false\<close> on
  that entry, and the entry leaves the pool.
\<close>

theorem handleApiError_403:
  assumes "up_status error = Some 403" and "access_token token \<noteq> None"
  shows "(isCallerDoesNotHavePermission (up_body error) \<longrightarrow>
            handleApiError isCallerDoesNotHavePermission error token s
              = (ApiError ExceededModelMaximumContext (Some 403) (up_body error), s))
       \<and> (\<not> isCallerDoesNotHavePermission (up_body error) \<longrightarrow>
            (\<exists>s'. handleApiError isCallerDoesNotHavePermission error token s
                    = (ApiError NoUsagePermissionDisabled (Some 403) (up_body error), s')
                \<and> (case find (\<lambda>t. access_token t = access_token token) (tokens s) of
                      None \<Rightarrow> s' = s
                    | Some found \<Rightarrow>
                        tokens s'
                          = filter (\<lambda>t. refresh_token t \<noteq> refresh_token found) (tokens s)
                        \<and> found \<notin> set (tokens s')
                        \<and> (\<exists>snapshot. saves s' = saves s @ [(snapshot, None)]
                              \<and> found\<lparr>enable := Some False\<rparr> \<in> set snapshot))))"
proof (cases "find (\<lambda>t. access_token t = access_token token) (tokens s)")
  case None
  with assms show ?thesis
    by (simp add: handleApiError_def disableCurrentToken_def Let_def)
next
  case (Some found)
  from find_Some_D[OF Some] have fin: "found \<in> set (tokens s)"
    and fa: "access_token found = access_token token" by auto
  with assms(2) have "access_token found \<noteq> None" by simp
  from disableToken_Inr[OF this, of s] obtain s' where s':
    "disableToken found s = Inr s'"
    "tokens s' = filter (\<lambda>t. refresh_token t \<noteq> refresh_token found) (tokens s)"
    "saves s' = saves s @
       [(map (\<lambda>t. if tid t = tid found then t\<lparr>enable := Some False\<rparr> else t) (tokens s), None)]"
    by blast
  have gone: "found \<notin> set (tokens s')" by (simp add: s'(2))
  have "found\<lparr>enable := Some False\<rparr>
          \<in> set (map (\<lambda>t. if tid t = tid found then t\<lparr>enable := Some False\<rparr> else t) (tokens s))"
    using fin by force
  with s' gone Some assms show ?thesis
    by (simp add: handleApiError_def disableCurrentToken_def Let_def)
qed

theorem handleApiError_403_witness:
  "handleApiError bodyIsCallerDoesNotHavePermission
       (sample_403 ''The caller does not have permission'') tokenA
       (sample_pool [tokenA, tokenB])
     = (ApiError ExceededModelMaximumContext (Some 403) ''The caller does not have permission'',
        sample_pool [tokenA, tokenB])
   \<and> fst (handleApiError bodyIsCallerDoesNotHavePermission (sample_403 ''Forbidden'') tokenA
            (sample_pool [tokenA, tokenB]))
     = ApiError NoUsagePermissionDisabled (Some 403) ''Forbidden''"
  using handleApiError_403[of "sample_403 ''The caller does not have permission''" tokenA
          bodyIsCallerDoesNotHavePermission "sample_pool [tokenA, tokenB]"]
        handleApiError_403[of "sample_403 ''Forbidden''" tokenA
          bodyIsCallerDoesNotHavePermission "sample_pool [tokenA, tokenB]"]
  by (auto simp: sample_403_def bodyIsCallerDoesNotHavePermission_def tokenA_def
      sample_token_def)

text \<open>
  Claim C3 as stated fails. With \<open>tokenA\<close> in use: the body that says the caller does
  not have permission leaves \<open>tokenA\<close> in the pool, nothing is handed to the store, and
  the error is the exceeded-context one; another 403 body disables \<open>tokenA\<close> and gives
  the no-permission error.
\<close>

theorem handleApiError_403_counterexample:
  "handleApiError bodyIsCallerDoesNotHavePermission
       (sample_403 ''The caller does not have permission'') tokenA
       (sample_pool [tokenA, tokenB])
     = (ApiError ExceededModelMaximumContext (Some 403) ''The caller does not have permission'',
        sample_pool [tokenA, tokenB])
   \<and> fst (handleApiError bodyIsCallerDoesNotHavePermission (sample_403 ''Forbidden'') tokenA
            (sample_pool [tokenA, tokenB]))
     = ApiError NoUsagePermissionDisabled (Some 403) ''Forbidden''
   \<and> tokens (snd (handleApiError bodyIsCallerDoesNotHavePermission (sample_403 ''Forbidden'')
                    tokenA (sample_pool [tokenA, tokenB])))
     = [tokenB]
   \<and> saves (snd (handleApiError bodyIsCallerDoesNotHavePermission (sample_403 ''Forbidden'')
                   tokenA (sample_pool [tokenA, tokenB])))
     = [([tokenA\<lparr>enable := Some False\<rparr>, tokenB], None)]"
  by (simp add: handleApiError_def sample_403_def bodyIsCallerDoesNotHavePermission_def
      disableCurrentToken_def sample_pool_def tokenA_def tokenB_def sample_token_def
      disableToken_def Let_def rebuildAvailableQuotaTokens_def)

section \<open>The model list\<close>

lemma foldl_add_default:
  "foldl (add_default c E) ml ds = ml @ map (model_of c) (filter (\<lambda>d. d \<notin> E) ds)"
  by (induction ds arbitrary: ml) (auto simp: add_default_def)

lemma model_id_model_of: "model_id (model_of c x) = x"
  by (simp add: model_of_def)

lemma model_ids_of: "map model_id (map (model_of c) ids) = ids"
  by (induction ids) (auto simp: model_id_model_of)

lemma model_id_image: "model_id ` model_of c ` S = S"
  by (simp add: image_image model_id_model_of)

lemma handleApiError_other_status:
  "up_status error \<noteq> Some 403 \<Longrightarrow>
   handleApiError p error token s
     = (ApiError ApiRequestFailed (up_status error) (up_body error), s)"
  by (simp add: handleApiError_def Let_def)

text \<open>Without a token the result is the default list.\<close>

lemma getAvailableModels_no_token:
  assumes "stale_cache e ttl c" and "getToken e None s = (Inr None, s1)"
  shows "getAvailableModels e p ttl upstream c s = (Inr (getDefaultModelList (now e)), c, s1)"
  using assms by (auto simp: getAvailableModels_def stale_cache_def)

text \<open>
  When the upstream answers, the result lists the upstream's models followed by the
  default models the upstream left out, so it contains every default model.
\<close>

lemma getAvailableModels_success:
  assumes "stale_cache e ttl c" and "getToken e None s = (Inr (Some token), s1)"
    and "upstream token = UpstreamReplies (RawModels ids)"
  shows "\<exists>c'. getAvailableModels e p ttl upstream c s
           = (Inr \<lparr> list_object = ''list'',
                    list_data = map (model_of (now e div 1000))
                                    (ids @ filter (\<lambda>d. d \<notin> set ids) DEFAULT_MODELS) \<rparr>,
              c', s1)"
  using assms
  by (auto simp: getAvailableModels_def stale_cache_def fetchRawModels_def Let_def
      foldl_add_default model_id_image)

lemma defaults_in_success_list:
  "set DEFAULT_MODELS
     \<subseteq> set (map model_id (map (model_of c) (ids @ filter (\<lambda>d. d \<notin> set ids) DEFAULT_MODELS)))"
  by (auto simp: image_image model_id_model_of)

text \<open>
  When the request to the upstream fails, \<open>fetchRawModels\<close> throws whatever
  \<open>handleApiError\<close> throws, and \<open>getAvailableModels\<close> does not catch it: the caller gets
  an error and no list.
\<close>

lemma getAvailableModels_upstream_fails:
  assumes "stale_cache e ttl c" and "getToken e None s = (Inr (Some token), s1)"
    and "upstream token = UpstreamFails error"
  shows "\<exists>thrown. fst (getAvailableModels e p ttl upstream c s) = Inl thrown"
  using assms
  by (auto simp: getAvailableModels_def stale_cache_def fetchRawModels_def split: prod.splits)

text \<open>
  Claim C9 at a failing input: the cache is empty, the pool holds two usable tokens, and
  the upstream answers the model request with status 500. The code throws the API error
  where the claim (and the comment in the code) has it return the default list.
\<close>

theorem getAvailableModels_upstream_failure_throws:
  "fst (getAvailableModels sample_env bodyIsCallerDoesNotHavePermission 300000
          (\<lambda>token. UpstreamFails \<lparr> up_status = Some 500, up_body = ''Internal error'' \<rparr>)
          \<lparr> modelListCache = None, modelListCacheTime = 0 \<rparr>
          (sample_pool [tokenA, tokenB]))
     = Inl (ApiError ApiRequestFailed (Some 500) ''Internal error'')"
  by code_simp


section \<open>Selection never returns a disabled token\<close>

lemma tokens_saveToFile [simp]: "tokens (saveToFile x s) = tokens s"
  by (simp add: saveToFile_def)

lemma tokens_rebuild [simp]: "tokens (rebuildAvailableQuotaTokens s) = tokens s"
  by (simp add: rebuildAvailableQuotaTokens_def Let_def)

lemma tokens_loadRotationConfig [simp]: "tokens (loadRotationConfig e s) = tokens s"
  by (simp add: loadRotationConfig_def split: option.splits)

lemma pool_enabled_saveToFile [simp]: "pool_enabled (saveToFile x s) = pool_enabled s"
  by (simp add: pool_enabled_def)

lemma pool_enabled_rebuild [simp]: "pool_enabled (rebuildAvailableQuotaTokens s) = pool_enabled s"
  by (simp add: pool_enabled_def)

lemma pool_enabled_update_token:
  "pool_enabled s \<Longrightarrow> enable token \<noteq> Some False \<Longrightarrow> pool_enabled (update_token token s)"
  by (auto simp: pool_enabled_def update_token_def)

lemma refreshToken_enabled:
  assumes "refreshToken e token s = ((r, token1), s1)"
  shows "enable token1 = enable token"
    and "pool_enabled s \<Longrightarrow> enable token \<noteq> Some False \<Longrightarrow> pool_enabled s1"
  using assms
  by (auto simp: refreshToken_def Let_def pool_enabled_update_token
           split: option.splits refresh_outcome.splits)

lemma prepareToken_enabled:
  assumes "prepareToken e token s = ((r, token1), s1)"
  shows "enable token1 = enable token"
    and "pool_enabled s \<Longrightarrow> enable token \<noteq> Some False \<Longrightarrow> pool_enabled s1"
proof -
  obtain r0 t0 s0 where r0: "(if isExpired e token then refreshToken e token s else ((None, token), s)) = ((r0, t0), s0)"
    by (metis surj_pair)
  have t0: "enable t0 = enable token"
    and s0: "pool_enabled s \<Longrightarrow> enable token \<noteq> Some False \<Longrightarrow> pool_enabled s0"
    using r0 refreshToken_enabled[of e token s r0 t0 s0] by (auto split: if_splits)
  show "enable token1 = enable token"
    using assms r0 t0
    by (auto simp: prepareToken_def Let_def split: option.splits if_splits)
  show "pool_enabled s \<Longrightarrow> enable token \<noteq> Some False \<Longrightarrow> pool_enabled s1"
    using assms r0 t0 s0
    by (auto simp: prepareToken_def Let_def pool_enabled_update_token split: option.splits if_splits)
qed

lemma disableToken_enabled:
  "disableToken token s = Inr s1 \<Longrightarrow> pool_enabled s \<Longrightarrow> pool_enabled s1"
  by (auto simp: disableToken_def Let_def pool_enabled_def split: option.splits)

lemma disableCurrentToken_enabled:
  "disableCurrentToken token s = Inr s1 \<Longrightarrow> pool_enabled s \<Longrightarrow> pool_enabled s1"
  by (auto simp: disableCurrentToken_def disableToken_enabled split: option.splits)

lemma catch_default_enabled:
  "pool_enabled s \<Longrightarrow> step_enabled (catch_default error token s)"
  by (auto simp: catch_default_def step_enabled_def handleTokenError_def disableToken_enabled
           split: option.splits sum.splits action.splits)

lemma catch_quota_enabled:
  "pool_enabled s \<Longrightarrow> step_enabled (catch_quota error token s)"
  by (auto simp: catch_quota_def step_enabled_def handleTokenError_def Let_def
           dest: disableToken_enabled
           split: option.splits sum.splits action.splits)

lemma pool_enabled_rotate_default [simp]:
  "pool_enabled (rotate_default index token s) = pool_enabled s"
  by (simp add: rotate_default_def Let_def pool_enabled_def resetRequestCount_def)

lemma js_index_in_set: "js_index xs i = Some x \<Longrightarrow> x \<in> set xs"
  by (auto simp: js_index_def split: if_splits)

lemma defaultStep_enabled:
  assumes "pool_enabled s"
  shows "step_enabled (defaultStep e modelId allEx n start i s)"
proof (cases "js_index (tokens s) ((start + i) mod n)")
  case None
  with assms show ?thesis
    by (simp add: defaultStep_def Let_def catch_default_enabled canUseTokenForModel_def)
next
  case (Some t)
  then have en: "enable t \<noteq> Some False"
    using assms js_index_in_set[OF Some] by (simp add: pool_enabled_def)
  obtain r t1 s1 where p: "prepareToken e t s = ((r, t1), s1)" by (metis surj_pair)
  from prepareToken_enabled[OF p] assms en
  have t1: "enable t1 \<noteq> Some False" and s1: "pool_enabled s1" by auto
  show ?thesis
  proof (cases "truthy_str modelId \<and> \<not> allEx \<and> \<not> canUseTokenForModel e (Some t) modelId")
    case True
    with Some assms show ?thesis by (simp add: defaultStep_def Let_def step_enabled_def)
  next
    case False
    show ?thesis
    proof (cases r)
      case (Inl error)
      with False Some p s1 show ?thesis
        by (auto simp: defaultStep_def Let_def catch_default_enabled)
    next
      case (Inr pr)
      show ?thesis
      proof (cases pr)
        case PrepReady
        with Inr False Some p s1 t1 show ?thesis
          by (auto simp: defaultStep_def Let_def step_enabled_def)
      next
        case PrepDisable
        show ?thesis
        proof (cases "disableToken t1 s1")
          case (Inl thrown)
          with PrepDisable Inr False Some p s1 show ?thesis
            by (auto simp: defaultStep_def Let_def catch_default_enabled)
        next
          case (Inr s2)
          with disableToken_enabled[OF Inr s1] PrepDisable \<open>r = Inr pr\<close> False Some p show ?thesis
            by (auto simp: defaultStep_def Let_def step_enabled_def)
        qed
      qed
    qed
  qed
qed

lemma defaultLoop_enabled:
  "pool_enabled s \<Longrightarrow> result_enabled (defaultLoop e modelId allEx n start i s)"
proof (induction e modelId allEx n start i s rule: defaultLoop.induct)
  case (1 e modelId allEx n start i s)
  show ?case
  proof (cases "i < n")
    case False
    with 1 show ?thesis
      by (simp add: result_enabled_def defaultLoop.simps[of e modelId allEx n start i s])
  next
    case True
    from defaultStep_enabled[OF "1.prems"]
    have st: "step_enabled (defaultStep e modelId allEx n start i s)" .
    show ?thesis
    proof (cases "defaultStep e modelId allEx n start i s")
      case (Continue s1)
      with st have "pool_enabled s1" by (simp add: step_enabled_def)
      from "1.IH"[OF True Continue this] True Continue show ?thesis
        by (simp add: defaultLoop.simps[of e modelId allEx n start i s])
    next
      case (Done result s1)
      with st True show ?thesis
        by (simp add: step_enabled_def result_enabled_def
            defaultLoop.simps[of e modelId allEx n start i s])
    qed
  qed
qed

lemma quotaStep_enabled:
  assumes "pool_enabled s"
  shows "step_enabled (quotaStep e modelId allEx n start i s)"
proof -
  let ?listIndex = "(start + i) mod n"
  let ?tokenIndex = "js_index (availableQuotaTokenIndices s) ?listIndex"
  let ?token = "case ?tokenIndex of None \<Rightarrow> None | Some ti \<Rightarrow> js_index (tokens s) ti"
  show ?thesis
  proof (cases ?token)
    case None
    with assms show ?thesis
      by (simp add: quotaStep_def Let_def catch_quota_enabled canUseTokenForModel_def)
  next
    case (Some t)
    then have "t \<in> set (tokens s)"
      by (auto split: option.splits dest: js_index_in_set)
    then have en: "enable t \<noteq> Some False" using assms by (simp add: pool_enabled_def)
    obtain r t1 s1 where p: "prepareToken e t s = ((r, t1), s1)" by (metis surj_pair)
    from prepareToken_enabled[OF p] assms en
    have t1: "enable t1 \<noteq> Some False" and s1: "pool_enabled s1" by auto
    show ?thesis
    proof (cases "truthy_str modelId \<and> \<not> allEx \<and> \<not> canUseTokenForModel e (Some t) modelId")
      case True
      with Some assms show ?thesis by (simp add: quotaStep_def Let_def step_enabled_def)
    next
      case False
      show ?thesis
      proof (cases r)
        case (Inl error)
        with False Some p s1 show ?thesis
          by (auto simp: quotaStep_def Let_def catch_quota_enabled)
      next
        case (Inr pr)
        show ?thesis
        proof (cases pr)
          case PrepReady
          with Inr False Some p s1 t1 show ?thesis
            by (auto simp: quotaStep_def Let_def step_enabled_def pool_enabled_def)
        next
          case PrepDisable
          show ?thesis
          proof (cases "disableToken t1 s1")
            case (Inl thrown)
            with PrepDisable Inr False Some p s1 show ?thesis
              by (auto simp: quotaStep_def Let_def catch_quota_enabled)
          next
            case (Inr s2)
            with disableToken_enabled[OF Inr s1] PrepDisable \<open>r = Inr pr\<close> False Some p show ?thesis
              by (auto simp: quotaStep_def Let_def step_enabled_def)
          qed
        qed
      qed
    qed
  qed
qed

lemma pool_enabled_resetAllQuotas [simp]: "pool_enabled (resetAllQuotas s) = pool_enabled s"
  by (auto simp: resetAllQuotas_def pool_enabled_def)

lemma quotaLoop_enabled:
  "pool_enabled s \<Longrightarrow> result_enabled (quotaLoop e modelId allEx n start i s)"
proof (induction e modelId allEx n start i s rule: quotaLoop.induct)
  case (1 e modelId allEx n start i s)
  show ?case
  proof (cases "i < n")
    case False
    have "\<forall>token. js_index (tokens (resetAllQuotas s)) 0 = Some token \<longrightarrow> enable token \<noteq> Some False"
      using "1.prems" pool_enabled_resetAllQuotas[of s]
      by (auto simp: pool_enabled_def dest!: js_index_in_set)
    with False 1 show ?thesis
      by (simp add: result_enabled_def Let_def quotaLoop.simps[of e modelId allEx n start i s])
  next
    case True
    from quotaStep_enabled[OF "1.prems"]
    have st: "step_enabled (quotaStep e modelId allEx n start i s)" .
    show ?thesis
    proof (cases "quotaStep e modelId allEx n start i s")
      case (Continue s1)
      with st have "pool_enabled s1" by (simp add: step_enabled_def)
      from "1.IH"[OF True Continue this] True Continue show ?thesis
        by (simp add: quotaLoop.simps[of e modelId allEx n start i s])
    next
      case (Done result s1)
      with st True show ?thesis
        by (simp add: step_enabled_def result_enabled_def quotaLoop.simps[of e modelId allEx n start i s])
    qed
  qed
qed

lemma refresh_all_enabled:
  "pool_enabled s \<Longrightarrow> \<forall>t \<in> set ts. enable t \<noteq> Some False \<Longrightarrow>
   pool_enabled (snd (refresh_all e ts s))"
proof (induction ts arbitrary: s)
  case Nil
  then show ?case by simp
next
  case (Cons t ts)
  obtain r t1 s1 where r: "refreshToken e t s = ((r, t1), s1)" by (metis surj_pair)
  from refreshToken_enabled(2)[OF r] Cons.prems have "pool_enabled s1" by simp
  then have "pool_enabled (snd (refreshTokenSafe e t s))"
    using r by (auto simp: refreshTokenSafe_def split: option.splits)
  from Cons.IH[OF this] Cons.prems(2) show ?case
    by (simp add: split_beta Let_def)
qed

lemma disable_all_enabled:
  "pool_enabled s \<Longrightarrow> pool_enabled (snd (disable_all ts s))"
proof (induction ts arbitrary: s)
  case Nil
  then show ?case by simp
next
  case (Cons t ts)
  then show ?case by (auto split: sum.splits dest: disableToken_enabled)
qed

lemma refreshExpired_enabled:
  "pool_enabled s \<Longrightarrow> pool_enabled (snd (refreshExpiredTokensConcurrently e s))"
proof -
  assume ok: "pool_enabled s"
  have "\<forall>t \<in> set (filter (isExpired e) (tokens s)). enable t \<noteq> Some False"
    using ok by (simp add: pool_enabled_def)
  from refresh_all_enabled[OF ok this, of e]
  show ?thesis using ok
    by (auto simp: refreshExpiredTokensConcurrently_def Let_def split_beta disable_all_enabled
             split: option.splits)
qed

lemma enumerate_snd_in_set: "(i, t) \<in> set (enumerate n xs) \<Longrightarrow> t \<in> set xs"
  by (auto simp: in_set_enumerate_eq)

lemma copies_origin:
  "x \<in> set (map (\<lambda>(i, token). token\<lparr>tid := i\<rparr>) (enumerate n xs)) \<Longrightarrow>
   \<exists>t \<in> set xs. \<exists>i. x = t\<lparr>tid := i\<rparr>"
  by (auto dest: enumerate_snd_in_set)

lemma initialize_enabled: "pool_enabled (initialize e s)"
proof (cases "storeReadAll e")
  case None
  then show ?thesis by (simp add: initialize_def pool_enabled_def)
next
  case (Some tokenArray)
  define enabled where "enabled = filter (\<lambda>token. enable token \<noteq> Some False) tokenArray"
  define copies where
    "copies = map (\<lambda>(i, token). token\<lparr>tid := i\<rparr>) (enumerate (next_tid s) enabled)"
  define s3 where "s3 = loadRotationConfig e (rebuildAvailableQuotaTokens
      (s\<lparr>tokens := copies, next_tid := next_tid s + length enabled,
         currentIndex := 0, tokenRequestCounts := Map.empty\<rparr>))"
  have eq: "initialize e s =
      (if tokens s3 = [] then s3
       else (case refreshExpiredTokensConcurrently e s3 of
               (None, s4) \<Rightarrow> s4
             | (Some error, s4) \<Rightarrow> s4\<lparr>tokens := []\<rparr>))"
    using Some by (simp add: initialize_def Let_def s3_def copies_def enabled_def)
  have "\<forall>t \<in> set copies. enable t \<noteq> Some False"
    unfolding copies_def enabled_def by (auto dest: enumerate_snd_in_set)
  then have ok3: "pool_enabled s3" by (simp add: pool_enabled_def s3_def)
  obtain r s4 where r: "refreshExpiredTokensConcurrently e s3 = (r, s4)" by (cases "refreshExpiredTokensConcurrently e s3")
  from refreshExpired_enabled[OF ok3, of e] r have ok4: "pool_enabled s4" by simp
  have "pool_enabled (s4\<lparr>tokens := []\<rparr>)" by (simp add: pool_enabled_def)
  with ok3 ok4 r show ?thesis by (cases r) (simp_all add: eq)
qed

lemma getTokenForDefaultStrategy_enabled:
  "pool_enabled s \<Longrightarrow> result_enabled (getTokenForDefaultStrategy e modelId s)"
  by (simp add: getTokenForDefaultStrategy_def Let_def defaultLoop_enabled)

lemma quota_strategy_from:
  assumes "pool_enabled s1"
  shows "result_enabled
           (let totalAvailable = length (availableQuotaTokenIndices s1)
            in if totalAvailable = 0 then (Inr None, s1)
               else
                 let allTokensExhausted =
                       (if truthy_str modelId then checkAllTokensExhaustedForModel e modelId s1
                        else False);
                     startIndex = currentQuotaIndex s1 mod totalAvailable
                 in quotaLoop e modelId allTokensExhausted totalAvailable startIndex 0 s1)"
proof (cases "length (availableQuotaTokenIndices s1) = 0")
  case True
  with assms show ?thesis by (simp add: result_enabled_def)
next
  case False
  with quotaLoop_enabled[OF assms] show ?thesis by (simp add: Let_def)
qed

lemma getTokenForQuotaExhaustedStrategy_enabled:
  assumes "pool_enabled s"
  shows "result_enabled (getTokenForQuotaExhaustedStrategy e modelId s)"
proof (cases "availableQuotaTokenIndices s = []")
  case True
  have "pool_enabled (resetAllQuotas s)" using assms by simp
  from quota_strategy_from[OF this, of modelId e] True show ?thesis
    by (simp add: getTokenForQuotaExhaustedStrategy_def Let_def)
next
  case False
  from quota_strategy_from[OF assms, of modelId e] False show ?thesis
    by (simp add: getTokenForQuotaExhaustedStrategy_def Let_def)
qed

lemma getToken_enabled:
  assumes "pool_enabled s"
  shows "result_enabled (getToken e modelId s)"
proof -
  let ?s1 = "ensureInitialized e s"
  have ok1: "pool_enabled ?s1"
    using assms by (simp add: ensureInitialized_def initialize_enabled)
  show ?thesis
  proof (cases "tokens ?s1 = []")
    case True
    with ok1 show ?thesis by (simp add: getToken_def Let_def result_enabled_def)
  next
    case False
    show ?thesis
    proof (cases "rotationStrategy ?s1 = QUOTA_EXHAUSTED")
      case True
      with False getTokenForQuotaExhaustedStrategy_enabled[OF ok1, of e modelId]
      show ?thesis by (simp add: getToken_def Let_def)
    next
      case nq: False
      with False getTokenForDefaultStrategy_enabled[OF ok1, of e modelId]
      show ?thesis by (simp add: getToken_def Let_def)
    qed
  qed
qed

lemma apply_op_enabled: "pool_enabled s \<Longrightarrow> pool_enabled (apply_op op s)"
proof (cases op)
  case (GetToken e modelId)
  assume "pool_enabled s"
  from getToken_enabled[OF this, of e modelId] GetToken show ?thesis
    by (simp add: result_enabled_def)
next
  case (DisableToken token)
  assume "pool_enabled s"
  with DisableToken show ?thesis by (auto split: sum.splits dest: disableToken_enabled)
next
  case (DisableCurrentToken token)
  assume "pool_enabled s"
  with DisableCurrentToken show ?thesis
    by (auto split: sum.splits dest: disableCurrentToken_enabled)
next
  case (Reload e)
  then show ?thesis by (simp add: reload_def initialize_enabled)
next
  case (IncrementRequestCount k)
  assume "pool_enabled s"
  with IncrementRequestCount show ?thesis
    by (simp add: incrementRequestCount_def Let_def pool_enabled_def)
qed

lemma run_ops_enabled: "pool_enabled s \<Longrightarrow> pool_enabled (run_ops ops s)"
  unfolding run_ops_def
  by (induction ops arbitrary: s) (auto simp: apply_op_enabled)

text \<open>
  Start from a new token manager and run any sequence of selections, calls of
  \<open>disableToken\<close> and \<open>disableCurrentToken\<close>, reloads and request counts, each to its
  end. Whatever \<open>getToken\<close> then returns, when it runs to its end as well, is either
  \<open>null\<close> or a token whose \<open>enable\<close> is not \<open>false\<close>.
\<close>

lemma getToken_never_returns_disabled:
  assumes "fst (getToken e modelId (run_ops ops (tm_new n))) = Inr (Some token)"
  shows "enable token \<noteq> Some False"
proof -
  have "pool_enabled (tm_new n)" by (simp add: pool_enabled_def tm_new_def)
  then have "pool_enabled (run_ops ops (tm_new n))" by (rule run_ops_enabled)
  from getToken_enabled[OF this, of e modelId] assms show ?thesis
    by (simp add: result_enabled_def)
qed


section \<open>Selection while other tasks run\<close>

text \<open>When nothing happens during the wait, the selection is the one defined before.\<close>

lemma refreshToken_during_nothing:
  "refreshToken_during e nothing_meanwhile token s = refreshToken e token s"
  by (simp add: refreshToken_during_def refreshToken_def nothing_meanwhile_def Let_def
           split: option.splits refresh_outcome.splits)

lemma prepareToken_during_nothing:
  "prepareToken_during e nothing_meanwhile token s = prepareToken e token s"
  unfolding prepareToken_during_def prepareToken_def refreshToken_during_nothing
  by (rule refl)

lemma defaultStep_during_nothing:
  "defaultStep_during e nothing_meanwhile modelId allEx n start i s
     = defaultStep e modelId allEx n start i s"
  unfolding defaultStep_during_def defaultStep_def prepareToken_during_nothing
  by (rule refl)

lemma defaultLoop_during_nothing:
  "defaultLoop_during e nothing_meanwhile modelId allEx n start i s
     = defaultLoop e modelId allEx n start i s"
proof (induction e modelId allEx n start i s rule: defaultLoop.induct)
  case (1 e modelId allEx n start i s)
  show ?case
  proof (cases "i < n")
    case False
    then show ?thesis
      by (simp add: defaultLoop.simps[of e modelId allEx n start i s]
          defaultLoop_during.simps[of e nothing_meanwhile modelId allEx n start i s])
  next
    case True
    show ?thesis
    proof (cases "defaultStep e modelId allEx n start i s")
      case (Continue s1)
      with True "1.IH"[OF True Continue] show ?thesis
        by (simp add: defaultLoop.simps[of e modelId allEx n start i s]
            defaultLoop_during.simps[of e nothing_meanwhile modelId allEx n start i s]
            defaultStep_during_nothing)
    next
      case (Done result s1)
      with True show ?thesis
        by (simp add: defaultLoop.simps[of e modelId allEx n start i s]
            defaultLoop_during.simps[of e nothing_meanwhile modelId allEx n start i s]
            defaultStep_during_nothing)
    qed
  qed
qed

lemma quotaStep_during_nothing:
  "quotaStep_during e nothing_meanwhile modelId allEx n start i s
     = quotaStep e modelId allEx n start i s"
  unfolding quotaStep_during_def quotaStep_def prepareToken_during_nothing
  by (rule refl)

lemma quotaLoop_during_nothing:
  "quotaLoop_during e nothing_meanwhile modelId allEx n start i s
     = quotaLoop e modelId allEx n start i s"
proof (induction e modelId allEx n start i s rule: quotaLoop.induct)
  case (1 e modelId allEx n start i s)
  show ?case
  proof (cases "i < n")
    case False
    then show ?thesis
      by (simp add: quotaLoop.simps[of e modelId allEx n start i s]
          quotaLoop_during.simps[of e nothing_meanwhile modelId allEx n start i s])
  next
    case True
    show ?thesis
    proof (cases "quotaStep e modelId allEx n start i s")
      case (Continue s1)
      with True "1.IH"[OF True Continue] show ?thesis
        by (simp add: quotaLoop.simps[of e modelId allEx n start i s]
            quotaLoop_during.simps[of e nothing_meanwhile modelId allEx n start i s]
            quotaStep_during_nothing)
    next
      case (Done result s1)
      with True show ?thesis
        by (simp add: quotaLoop.simps[of e modelId allEx n start i s]
            quotaLoop_during.simps[of e nothing_meanwhile modelId allEx n start i s]
            quotaStep_during_nothing)
    qed
  qed
qed

lemma getToken_during_nothing:
  "getToken_during e nothing_meanwhile modelId s = getToken e modelId s"
  unfolding getToken_during_def getToken_def getTokenForDefaultStrategy_during_def
      getTokenForDefaultStrategy_def getTokenForQuotaExhaustedStrategy_during_def
      getTokenForQuotaExhaustedStrategy_def defaultLoop_during_nothing quotaLoop_during_nothing
  by (rule refl)



lemma pool_spared_saveToFile [simp]: "pool_spared D (saveToFile x s) = pool_spared D s"
  by (simp add: pool_spared_def)

lemma pool_spared_rebuild [simp]: "pool_spared D (rebuildAvailableQuotaTokens s) = pool_spared D s"
  by (simp add: pool_spared_def)


lemma pool_spared_rotate_default [simp]:
  "pool_spared D (rotate_default index token s) = pool_spared D s"
  by (simp add: rotate_default_def Let_def pool_spared_def resetRequestCount_def)





lemma spared_fields [simp]:
  "spared D (t\<lparr>access_token := a\<rparr>) = spared D t"
  "spared D (t\<lparr>expires_in := x\<rparr>) = spared D t"
  "spared D (t\<lparr>timestamp := ts\<rparr>) = spared D t"
  "spared D (t\<lparr>projectId := p\<rparr>) = spared D t"
  by (simp_all add: spared_def)
















section \<open>Selection under a model constraint\<close>

lemma refreshToken_refresh_token:
  "refreshToken e token s = ((r, token1), s1) \<Longrightarrow> refresh_token token1 = refresh_token token"
  by (auto simp: refreshToken_def Let_def split: option.splits refresh_outcome.splits)

lemma prepareToken_refresh_token:
  assumes "prepareToken e token s = ((r, token1), s1)"
  shows "refresh_token token1 = refresh_token token"
proof -
  obtain r0 t0 s0 where r0: "(if isExpired e token then refreshToken e token s else ((None, token), s)) = ((r0, t0), s0)"
    by (metis surj_pair)
  have t0: "refresh_token t0 = refresh_token token"
    using r0 refreshToken_refresh_token[of e token s r0 t0 s0] by (auto split: if_splits)
  show ?thesis
    using assms r0 t0
    by (auto simp: prepareToken_def Let_def split: option.splits if_splits)
qed

lemma canUse_refresh_token:
  "refresh_token a = refresh_token b \<Longrightarrow>
   canUseTokenForModel e (Some a) modelId = canUseTokenForModel e (Some b) modelId"
  by (simp add: canUseTokenForModel_def isTokenAvailableForModel_def hasQuotaForModel_def)

lemma catch_default_no_token:
  "catch_default error token s = Done result s1 \<Longrightarrow> result \<noteq> Inr (Some t)"
  by (auto simp: catch_default_def split: sum.splits action.splits if_splits)

lemma defaultStep_usable:
  assumes "truthy_str modelId"
  shows "step_usable e modelId allEx (defaultStep e modelId allEx n start i s)"
proof (cases "js_index (tokens s) ((start + i) mod n)")
  case None
  then show ?thesis
    by (auto simp: defaultStep_def Let_def step_usable_def canUseTokenForModel_def
             dest: catch_default_no_token split: step.splits)
next
  case (Some t)
  obtain r t1 s1 where p: "prepareToken e t s = ((r, t1), s1)" by (metis surj_pair)
  have same: "canUseTokenForModel e (Some t1) modelId = canUseTokenForModel e (Some t) modelId"
    using prepareToken_refresh_token[OF p] by (rule canUse_refresh_token)
  show ?thesis
  proof (cases "truthy_str modelId \<and> \<not> allEx \<and> \<not> canUseTokenForModel e (Some t) modelId")
    case True
    with Some show ?thesis by (simp add: defaultStep_def Let_def step_usable_def)
  next
    case False
    with assms have ok: "allEx \<or> canUseTokenForModel e (Some t1) modelId" using same by auto
    show ?thesis
    proof (cases r)
      case (Inl error)
      with False Some p show ?thesis
        by (auto simp: defaultStep_def Let_def step_usable_def
                 dest: catch_default_no_token split: step.splits)
    next
      case (Inr pr)
      show ?thesis
      proof (cases pr)
        case PrepReady
        with Inr False Some p ok show ?thesis
          by (auto simp: defaultStep_def Let_def step_usable_def)
      next
        case PrepDisable
        with Inr False Some p show ?thesis
          by (auto simp: defaultStep_def Let_def step_usable_def
                   dest: catch_default_no_token split: step.splits sum.splits)
      qed
    qed
  qed
qed

lemma defaultLoop_usable:
  "truthy_str modelId \<Longrightarrow>
   fst (defaultLoop e modelId allEx n start i s) = Inr (Some token) \<Longrightarrow>
   allEx \<or> canUseTokenForModel e (Some token) modelId"
proof (induction e modelId allEx n start i s rule: defaultLoop.induct)
  case (1 e modelId allEx n start i s)
  note truthy = "1.prems"(1) and ret = "1.prems"(2)
  show ?case
  proof (cases "i < n")
    case False
    with ret show ?thesis
      by (simp add: defaultLoop.simps[of e modelId allEx n start i s])
  next
    case True
    show ?thesis
    proof (cases "defaultStep e modelId allEx n start i s")
      case (Continue s1)
      with True ret
      have "fst (defaultLoop e modelId allEx n start (Suc i) s1) = Inr (Some token)"
        by (simp add: defaultLoop.simps[of e modelId allEx n start i s])
      from "1.IH"[OF True Continue truthy this] show ?thesis .
    next
      case (Done result s1)
      with True ret have "result = Inr (Some token)"
        by (simp add: defaultLoop.simps[of e modelId allEx n start i s])
      with defaultStep_usable[OF truthy, of e allEx n start i s] Done show ?thesis
        by (simp add: step_usable_def)
    qed
  qed
qed

lemma canUse_iff:
  "truthy_str modelId \<Longrightarrow>
   canUseTokenForModel e (Some t) modelId
     \<longleftrightarrow> isTokenAvailableForModel e (Some t) modelId \<and> hasQuotaForModel e (Some t) modelId"
  by (simp add: canUseTokenForModel_def)

lemma isTokenAvailableForModel_ledger:
  assumes "m \<noteq> []" and "store_salt e = Some salt" and "salt \<noteq> []"
    and "generateTokenId e (refresh_token t) salt = Some tokenId"
  shows "isTokenAvailableForModel e (Some t) (Some m)
           \<longleftrightarrow> cooldown_isAvailable e tokenId m \<noteq> Some False"
  using assms
  by (auto simp: isTokenAvailableForModel_def truthy_str_def split: option.splits)

lemma hasQuotaForModel_ledger:
  assumes "m \<noteq> []" and "store_salt e = Some salt" and "salt \<noteq> []"
    and "generateTokenId e (refresh_token t) salt = Some tokenId"
  shows "hasQuotaForModel e (Some t) (Some m)
           \<longleftrightarrow> quota_hasQuotaForModel e tokenId m \<noteq> Some False"
  using assms
  by (auto simp: hasQuotaForModel_def truthy_str_def split: option.splits)

text \<open>
  Under the round-robin and request-count strategies (and any strategy other than
  quota-exhausted), a call \<open>getToken(modelId)\<close> with a non-empty model ID returns a token
  that passes both of the pool's tests for that model, the cooldown test
  \<open>_isTokenAvailableForModel\<close> and the quota test \<open>_hasQuotaForModel\<close>, unless every token
  of the pool fails one of the two tests, in which case any token may be returned. The
  pool is the one the call starts from, after initialization.
\<close>

lemma getToken_default_strategy_usable:
  assumes "truthy_str modelId"
    and "rotationStrategy (ensureInitialized e s) \<noteq> QUOTA_EXHAUSTED"
    and "fst (getToken e modelId s) = Inr (Some token)"
  shows "(isTokenAvailableForModel e (Some token) modelId
            \<and> hasQuotaForModel e (Some token) modelId)
       \<or> (\<forall>t \<in> set (tokens (ensureInitialized e s)).
             \<not> isTokenAvailableForModel e (Some t) modelId
             \<or> \<not> hasQuotaForModel e (Some t) modelId)"
proof -
  let ?s1 = "ensureInitialized e s"
  let ?allEx = "checkAllTokensExhaustedForModel e modelId ?s1"
  have ne: "tokens ?s1 \<noteq> []"
    using assms(3) by (auto simp: getToken_def Let_def)
  with assms have "fst (defaultLoop e modelId ?allEx (length (tokens ?s1)) (currentIndex ?s1) 0 ?s1)
      = Inr (Some token)"
    by (simp add: getToken_def Let_def getTokenForDefaultStrategy_def)
  from defaultLoop_usable[OF assms(1) this]
  have "?allEx \<or> canUseTokenForModel e (Some token) modelId" .
  then show ?thesis
  proof
    assume "?allEx"
    with ne assms(1) have "\<forall>t \<in> set (tokens ?s1). \<not> canUseTokenForModel e (Some t) modelId"
      by (simp add: checkAllTokensExhaustedForModel_def list_ex_iff)
    then show ?thesis using canUse_iff[OF assms(1)] by blast
  next
    assume "canUseTokenForModel e (Some token) modelId"
    then show ?thesis using canUse_iff[OF assms(1)] by blast
  qed
qed

lemma getToken_default_strategy_example:
  "fst (getToken cooled_env (Some ''gemini-2.5-pro'') (sample_pool [tokenA, tokenB]))
     = Inr (Some tokenB)
   \<and> isTokenAvailableForModel cooled_env (Some tokenB) (Some ''gemini-2.5-pro'')
   \<and> hasQuotaForModel cooled_env (Some tokenB) (Some ''gemini-2.5-pro'')"
proof -
  have h1: "truthy_str (Some ''gemini-2.5-pro'')" by (simp add: truthy_str_def)
  have h2: "rotationStrategy (ensureInitialized cooled_env (sample_pool [tokenA, tokenB]))
              \<noteq> QUOTA_EXHAUSTED"
    by code_simp
  have h3: "fst (getToken cooled_env (Some ''gemini-2.5-pro'') (sample_pool [tokenA, tokenB]))
              = Inr (Some tokenB)"
    by code_simp
  have h4: "\<not> (\<forall>t \<in> set (tokens (ensureInitialized cooled_env (sample_pool [tokenA, tokenB]))).
                 \<not> isTokenAvailableForModel cooled_env (Some t) (Some ''gemini-2.5-pro'')
                 \<or> \<not> hasQuotaForModel cooled_env (Some t) (Some ''gemini-2.5-pro''))"
    by code_simp
  from getToken_default_strategy_usable[OF h1 h2 h3] h3 h4 show ?thesis by blast
qed

text \<open>
  Under the quota-exhausted strategy the loop keeps to the same rule. What is left is the
  statement after the loop, \<open>return this.tokens[0] || null\<close>: a token returned by the call
  passes both tests, or every token of the pool fails one, or it is the first entry of the
  pool.
\<close>

lemma catch_quota_no_token:
  "catch_quota error token s = Done result s1 \<Longrightarrow> result \<noteq> Inr (Some t)"
  by (auto simp: catch_quota_def Let_def split: sum.splits action.splits if_splits)

lemma quotaStep_usable:
  assumes "truthy_str modelId"
  shows "step_usable e modelId allEx (quotaStep e modelId allEx n start i s)"
proof -
  define token where "token = (case js_index (availableQuotaTokenIndices s) ((start + i) mod n) of
                                 None \<Rightarrow> None | Some ti \<Rightarrow> js_index (tokens s) ti)"
  show ?thesis
  proof (cases token)
    case None
    then show ?thesis
      unfolding token_def
      by (auto simp: quotaStep_def Let_def step_usable_def canUseTokenForModel_def
               dest: catch_quota_no_token split: step.splits)
  next
    case (Some t)
    obtain r t1 s1 where p: "prepareToken e t s = ((r, t1), s1)" by (metis surj_pair)
    have same: "canUseTokenForModel e (Some t1) modelId = canUseTokenForModel e (Some t) modelId"
      using prepareToken_refresh_token[OF p] by (rule canUse_refresh_token)
    show ?thesis
    proof (cases "truthy_str modelId \<and> \<not> allEx \<and> \<not> canUseTokenForModel e (Some t) modelId")
      case True
      with Some show ?thesis
        unfolding token_def by (simp add: quotaStep_def Let_def step_usable_def)
    next
      case False
      with assms have ok: "allEx \<or> canUseTokenForModel e (Some t1) modelId" using same by auto
      show ?thesis
      proof (cases r)
        case (Inl error)
        with False Some p show ?thesis
          unfolding token_def
          by (auto simp: quotaStep_def Let_def step_usable_def
                   dest: catch_quota_no_token split: step.splits)
      next
        case (Inr pr)
        show ?thesis
        proof (cases pr)
          case PrepReady
          with Inr False Some p ok show ?thesis
            unfolding token_def by (auto simp: quotaStep_def Let_def step_usable_def)
        next
          case PrepDisable
          with Inr False Some p show ?thesis
            unfolding token_def
            by (auto simp: quotaStep_def Let_def step_usable_def
                     dest: catch_quota_no_token split: step.splits sum.splits)
        qed
      qed
    qed
  qed
qed

lemma quotaLoop_usable:
  "truthy_str modelId \<Longrightarrow>
   quotaLoop e modelId allEx n start i s = (Inr (Some token), s') \<Longrightarrow>
   allEx \<or> canUseTokenForModel e (Some token) modelId \<or> js_index (tokens s') 0 = Some token"
proof (induction e modelId allEx n start i s rule: quotaLoop.induct)
  case (1 e modelId allEx n start i s)
  note truthy = "1.prems"(1) and ret = "1.prems"(2)
  show ?case
  proof (cases "i < n")
    case False
    with ret show ?thesis
      by (auto simp: quotaLoop.simps[of e modelId allEx n start i s] Let_def)
  next
    case True
    show ?thesis
    proof (cases "quotaStep e modelId allEx n start i s")
      case (Continue s1)
      with True ret
      have "quotaLoop e modelId allEx n start (Suc i) s1 = (Inr (Some token), s')"
        by (simp add: quotaLoop.simps[of e modelId allEx n start i s])
      from "1.IH"[OF True Continue truthy this] show ?thesis .
    next
      case (Done result s1)
      with True ret have "result = Inr (Some token)"
        by (simp add: quotaLoop.simps[of e modelId allEx n start i s])
      with quotaStep_usable[OF truthy, of e allEx n start i s] Done show ?thesis
        by (auto simp: step_usable_def)
    qed
  qed
qed

lemma canUse_resetAllQuotas:
  "list_ex (\<lambda>token. canUseTokenForModel e (Some token) modelId) (tokens (resetAllQuotas s))
     = list_ex (\<lambda>token. canUseTokenForModel e (Some token) modelId) (tokens s)"
proof -
  have "\<And>t. canUseTokenForModel e (Some (t\<lparr>hasQuota := Some True\<rparr>)) modelId
             = canUseTokenForModel e (Some t) modelId"
    by (rule canUse_refresh_token) simp
  then show ?thesis
    by (simp add: resetAllQuotas_def list_ex_iff)
qed

lemma getToken_quota_exhausted_usable:
  assumes "truthy_str modelId"
    and "rotationStrategy (ensureInitialized e s) = QUOTA_EXHAUSTED"
    and "getToken e modelId s = (Inr (Some token), s')"
  shows "(isTokenAvailableForModel e (Some token) modelId
            \<and> hasQuotaForModel e (Some token) modelId)
       \<or> (\<forall>t \<in> set (tokens (ensureInitialized e s)).
             \<not> isTokenAvailableForModel e (Some t) modelId
             \<or> \<not> hasQuotaForModel e (Some t) modelId)
       \<or> js_index (tokens s') 0 = Some token"
proof -
  let ?s0 = "ensureInitialized e s"
  define s1 where "s1 = (if availableQuotaTokenIndices ?s0 = [] then resetAllQuotas ?s0 else ?s0)"
  let ?allEx = "checkAllTokensExhaustedForModel e modelId s1"
  have ne: "tokens ?s0 \<noteq> []"
    using assms(3) by (auto simp: getToken_def Let_def)
  have ne1: "tokens s1 \<noteq> []"
    using ne by (simp add: s1_def resetAllQuotas_def)
  have q: "getTokenForQuotaExhaustedStrategy e modelId ?s0 = (Inr (Some token), s')"
    using assms(2,3) ne by (simp add: getToken_def Let_def)
  have av: "availableQuotaTokenIndices s1 \<noteq> []"
    using q by (auto simp: getTokenForQuotaExhaustedStrategy_def Let_def s1_def split: if_splits)
  have "quotaLoop e modelId ?allEx (length (availableQuotaTokenIndices s1))
          (currentQuotaIndex s1 mod length (availableQuotaTokenIndices s1)) 0 s1
        = (Inr (Some token), s')"
    using q av assms(1)
    by (simp add: getTokenForQuotaExhaustedStrategy_def Let_def s1_def split: if_splits)
  from quotaLoop_usable[OF assms(1) this]
  consider "?allEx" | "canUseTokenForModel e (Some token) modelId"
    | "js_index (tokens s') 0 = Some token" by blast
  then show ?thesis
  proof cases
    case 1
    with ne1 assms(1)
    have "\<not> list_ex (\<lambda>token. canUseTokenForModel e (Some token) modelId) (tokens s1)"
      by (simp add: checkAllTokensExhaustedForModel_def)
    then have "\<not> list_ex (\<lambda>token. canUseTokenForModel e (Some token) modelId) (tokens ?s0)"
      by (simp add: s1_def canUse_resetAllQuotas split: if_splits)
    then have "\<forall>t \<in> set (tokens ?s0). \<not> canUseTokenForModel e (Some t) modelId"
      by (simp add: list_ex_iff)
    then show ?thesis using canUse_iff[OF assms(1)] by blast
  next
    case 2
    then show ?thesis using canUse_iff[OF assms(1)] by blast
  next
    case 3
    then show ?thesis by blast
  qed
qed

text \<open>
  Claim C4. A call \<open>getToken(modelId)\<close> is to return a token that is neither in cooldown
  nor without quota for the model, unless every token of the pool is. The fallback of
  the quota-exhausted strategy breaks this. The pool holds \<open>tokenA\<close>, which is in cooldown
  for the model, and \<open>tokenB\<close>, which passes both tests for the model but carries
  \<open>hasQuota = false\<close> and so is not in the list the loop walks; not every token is
  exhausted for the model. The loop skips \<open>tokenA\<close> as unavailable for the model and ends,
  and the statement after it returns the first token of the pool, \<open>tokenA\<close>. Under the
  round-robin strategy the same pool yields \<open>tokenB\<close>.
\<close>

theorem getToken_quota_exhausted_fallback:
  "fst (getToken quota_env (Some ''gemini-2.5-pro'') (tm_new 50)) = Inr (Some tokenA)
   \<and> \<not> isTokenAvailableForModel quota_env (Some tokenA) (Some ''gemini-2.5-pro'')
   \<and> tokens (ensureInitialized quota_env (tm_new 50))
       = [tokenA, tokenB\<lparr>hasQuota := Some False\<rparr>]
   \<and> isTokenAvailableForModel quota_env (Some (tokenB\<lparr>hasQuota := Some False\<rparr>))
        (Some ''gemini-2.5-pro'')
   \<and> hasQuotaForModel quota_env (Some (tokenB\<lparr>hasQuota := Some False\<rparr>))
        (Some ''gemini-2.5-pro'')
   \<and> fst (getToken round_robin_env (Some ''gemini-2.5-pro'') (tm_new 50))
       = Inr (Some (tokenB\<lparr>hasQuota := Some False\<rparr>))"
  by code_simp


section \<open>The refresh wave of initialization\<close>

lemma tid_refresh1 [simp]: "tid (refresh1 e t) = tid t"
  by (simp add: refresh1_def split: refresh_outcome.splits)

lemma refresh_token_refresh1 [simp]: "refresh_token (refresh1 e t) = refresh_token t"
  by (simp add: refresh1_def split: refresh_outcome.splits)

lemma refreshTokenSafe_result:
  assumes "storeGetSalt e = Some salt" and "generateTokenId e (refresh_token t) salt \<noteq> None"
    and "\<forall>x \<in> set (tokens s). tid x = tid t \<longrightarrow> x = t"
  shows "fst (refreshTokenSafe e t s) = settle e t"
    and "tokens (snd (refreshTokenSafe e t s))
           = map (\<lambda>x. if tid x = tid t then refresh1 e x else x) (tokens s)"
proof -
  show "fst (refreshTokenSafe e t s) = settle e t"
    using assms(1,2)
    by (auto simp: refreshTokenSafe_def refreshToken_def settle_def Let_def
             split: option.splits refresh_outcome.splits if_splits)
  have same: "map (\<lambda>x. if tid x = tid t then refresh1 e t else x) (tokens s)
            = map (\<lambda>x. if tid x = tid t then refresh1 e x else x) (tokens s)"
    using assms(3) by (auto intro!: map_cong)
  have unchanged: "refreshRequest e t = RefreshFail st \<Longrightarrow>
      map (\<lambda>x. if tid x = tid t then refresh1 e x else x) (tokens s) = tokens s" for st
    using assms(3) by (auto simp: refresh1_def intro!: map_idI)
  show "tokens (snd (refreshTokenSafe e t s))
           = map (\<lambda>x. if tid x = tid t then refresh1 e x else x) (tokens s)"
  proof (cases "refreshRequest e t")
    case (RefreshOk a x)
    then have "tokens (snd (refreshTokenSafe e t s))
        = map (\<lambda>x. if tid x = tid t then refresh1 e t else x) (tokens s)"
      using assms(1,2)
      by (auto simp: refreshTokenSafe_def refreshToken_def refresh1_def Let_def update_token_def
           saveToFile_def split: option.splits)
    with same show ?thesis by simp
  next
    case (RefreshFail st)
    then have "tokens (snd (refreshTokenSafe e t s)) = tokens s"
      using assms(1,2)
      by (auto simp: refreshTokenSafe_def refreshToken_def Let_def split: option.splits)
    with unchanged[OF RefreshFail] show ?thesis by simp
  qed
qed

lemma refresh_all_result:
  assumes "storeGetSalt e = Some salt"
    and "\<forall>t \<in> set ts. generateTokenId e (refresh_token t) salt \<noteq> None"
    and "distinct (map tid ts)"
    and "\<forall>t \<in> set ts. \<forall>x \<in> set (tokens s). tid x = tid t \<longrightarrow> x = t"
  shows "fst (refresh_all e ts s) = map (settle e) ts
       \<and> tokens (snd (refresh_all e ts s))
           = map (\<lambda>x. if tid x \<in> tid ` set ts then refresh1 e x else x) (tokens s)"
  using assms(2-)
proof (induction ts arbitrary: s)
  case Nil
  then show ?case by simp
next
  case (Cons t ts)
  let ?s1 = "snd (refreshTokenSafe e t s)"
  have gen: "generateTokenId e (refresh_token t) salt \<noteq> None" using Cons.prems(1) by simp
  have own: "\<forall>x \<in> set (tokens s). tid x = tid t \<longrightarrow> x = t" using Cons.prems(3) by simp
  note r = refreshTokenSafe_result[OF assms(1) gen own]
  note tok1 = r(2)
  have inv: "\<forall>t' \<in> set ts. \<forall>x \<in> set (tokens ?s1). tid x = tid t' \<longrightarrow> x = t'"
  proof (intro ballI impI)
    fix t' x assume t': "t' \<in> set ts" and x: "x \<in> set (tokens ?s1)" and eq: "tid x = tid t'"
    from Cons.prems(2) have "tid t \<notin> tid ` set ts" by simp
    with t' have ne: "tid t' \<noteq> tid t" by (metis image_eqI)
    from x tok1 obtain y where y: "y \<in> set (tokens s)"
      and xy: "x = (if tid y = tid t then refresh1 e y else y)" by auto
    from xy eq ne have "x = y" by (auto split: if_splits)
    with y eq t' Cons.prems(3) show "x = t'" by auto
  qed
  have IH: "fst (refresh_all e ts ?s1) = map (settle e) ts
       \<and> tokens (snd (refresh_all e ts ?s1))
           = map (\<lambda>x. if tid x \<in> tid ` set ts then refresh1 e x else x) (tokens ?s1)"
    using Cons.IH[of ?s1] Cons.prems inv by simp
  have fst_eq: "fst (refresh_all e (t # ts) s) = fst (refreshTokenSafe e t s) # fst (refresh_all e ts ?s1)"
    by (simp add: split_beta Let_def)
  have snd_eq: "snd (refresh_all e (t # ts) s) = snd (refresh_all e ts ?s1)"
    by (simp add: split_beta Let_def)
  have "map (\<lambda>x. if tid x \<in> tid ` set ts then refresh1 e x else x) (tokens ?s1)
      = map (\<lambda>x. if tid x \<in> tid ` set (t # ts) then refresh1 e x else x) (tokens s)"
    using Cons.prems(2) by (auto simp: tok1)
  with IH fst_eq snd_eq r(1) show ?case by simp
qed

lemma disable_all_result:
  assumes "\<forall>d \<in> set ds. access_token d \<noteq> None"
    and "distinct (map refresh_token ds)"
    and "set ds \<subseteq> set (tokens s)"
  shows "\<exists>s2. disable_all ds s = (None, s2)
          \<and> tokens s2 = filter (\<lambda>x. refresh_token x \<notin> refresh_token ` set ds) (tokens s)
          \<and> set (saves s) \<subseteq> set (saves s2)
          \<and> (\<forall>d \<in> set ds. \<exists>snapshot. (snapshot, None) \<in> set (saves s2)
                              \<and> d\<lparr>enable := Some False\<rparr> \<in> set snapshot)"
  using assms
proof (induction ds arbitrary: s)
  case Nil
  then show ?case by simp
next
  case (Cons d ds)
  have "access_token d \<noteq> None" using Cons.prems(1) by simp
  from disableToken_Inr[OF this, of s] obtain s1 where s1:
    "disableToken d s = Inr s1"
    "tokens s1 = filter (\<lambda>t. refresh_token t \<noteq> refresh_token d) (tokens s)"
    "saves s1 = saves s @
       [(map (\<lambda>t. if tid t = tid d then t\<lparr>enable := Some False\<rparr> else t) (tokens s), None)]"
    by blast
  have d_in: "d \<in> set (tokens s)" using Cons.prems(3) by simp
  have snap: "d\<lparr>enable := Some False\<rparr>
          \<in> set (map (\<lambda>t. if tid t = tid d then t\<lparr>enable := Some False\<rparr> else t) (tokens s))"
    using d_in by force
  have "refresh_token d \<notin> refresh_token ` set ds" using Cons.prems(2) by simp
  then have others: "\<forall>d' \<in> set ds. refresh_token d' \<noteq> refresh_token d"
    by (metis image_eqI)
  have sub: "set ds \<subseteq> set (tokens s1)"
    using Cons.prems(3) others by (auto simp: s1(2))
  from Cons.IH[of s1] Cons.prems sub obtain s2 where s2:
    "disable_all ds s1 = (None, s2)"
    "tokens s2 = filter (\<lambda>x. refresh_token x \<notin> refresh_token ` set ds) (tokens s1)"
    "set (saves s1) \<subseteq> set (saves s2)"
    "\<forall>d \<in> set ds. \<exists>snapshot. (snapshot, None) \<in> set (saves s2)
                              \<and> d\<lparr>enable := Some False\<rparr> \<in> set snapshot"
    by auto
  have r: "disable_all (d # ds) s = (None, s2)" using s1(1) s2(1) by simp
  have t: "tokens s2 = filter (\<lambda>x. refresh_token x \<notin> refresh_token ` set (d # ds)) (tokens s)"
    by (auto simp: s2(2) s1(2) intro!: filter_cong)
  have sv: "set (saves s) \<subseteq> set (saves s2)" using s2(3) by (auto simp: s1(3))
  have first: "\<exists>snapshot. (snapshot, None) \<in> set (saves s2)
                              \<and> d\<lparr>enable := Some False\<rparr> \<in> set snapshot"
    using s2(3) snap by (auto simp: s1(3))
  from r t sv first s2(4) show ?case by auto
qed

lemma filter_zip_map:
  "map fst (filter (\<lambda>(t, r). P r) (zip xs (map f xs))) = filter (\<lambda>t. P (f t)) xs"
  by (induction xs) auto

lemma settle_disable_iff:
  "settle e t = FulfilledDisable
     \<longleftrightarrow> refreshRequest e t = RefreshFail (Some 400) \<or> refreshRequest e t = RefreshFail (Some 403)"
  by (auto simp: settle_def Let_def split: refresh_outcome.splits option.splits if_splits)

lemma tids_of_copies_fst:
  "map tid (map (\<lambda>(i, token). token\<lparr>tid := i\<rparr>) (enumerate n xs)) = map fst (enumerate n xs)"
  by (induction xs arbitrary: n) auto

lemma tids_of_copies:
  "map tid (map (\<lambda>(i, token). token\<lparr>tid := i\<rparr>) (enumerate n xs)) = [n..<n + length xs]"
  by (simp only: tids_of_copies_fst map_fst_enumerate)

lemma refresh_tokens_of_copies:
  "map refresh_token (map (\<lambda>(i, token). token\<lparr>tid := i\<rparr>) (enumerate n xs))
     = map refresh_token xs"
  by (induction xs arbitrary: n) auto

lemma refreshExpired_result:
  assumes salt: "storeGetSalt e = Some salt"
    and gen: "\<forall>t \<in> set (tokens s). generateTokenId e (refresh_token t) salt \<noteq> None"
    and acc: "\<forall>t \<in> set (tokens s). must_disable e t \<longrightarrow> access_token t \<noteq> None"
    and dt: "distinct (map tid (tokens s))"
    and dr: "distinct (map refresh_token (tokens s))"
  shows "\<exists>s2. refreshExpiredTokensConcurrently e s = (None, s2)
          \<and> tokens s2 = map (after_refresh e) (filter (\<lambda>t. \<not> must_disable e t) (tokens s))
          \<and> (\<forall>d \<in> set (tokens s). must_disable e d \<longrightarrow>
                (\<exists>snapshot. (snapshot, None) \<in> set (saves s2)
                     \<and> d\<lparr>enable := Some False\<rparr> \<in> set snapshot))"
proof -
  define P where "P = tokens s"
  define expired where "expired = filter (isExpired e) P"
  define D where "D = filter (\<lambda>t. settle e t = FulfilledDisable) expired"
  have D_eq: "D = filter (must_disable e) P"
    by (auto simp: D_def expired_def must_disable_def refresh_rejected_def settle_disable_iff
             intro!: filter_cong)
  have inj_tid: "inj_on tid (set P)" using dt by (simp add: P_def distinct_map)
  have inj_rt: "inj_on refresh_token (set P)" using dr by (simp add: P_def distinct_map)
  show ?thesis
  proof (cases "expired = []")
    case True
    then have none: "\<forall>t \<in> set P. \<not> isExpired e t" by (auto simp: expired_def filter_empty_conv)
    then have "filter (\<lambda>t. \<not> must_disable e t) P = P"
      by (auto simp: must_disable_def refresh_rejected_def)
    moreover have "map (after_refresh e) P = P"
      using none by (auto simp: after_refresh_def intro!: map_idI)
    moreover have "\<forall>d \<in> set P. \<not> must_disable e d"
      using none by (auto simp: must_disable_def refresh_rejected_def)
    ultimately show ?thesis using True
      by (simp add: refreshExpiredTokensConcurrently_def Let_def P_def[symmetric] expired_def[symmetric])
  next
    case False
    have gen_exp: "\<forall>t \<in> set expired. generateTokenId e (refresh_token t) salt \<noteq> None"
      using gen by (simp add: expired_def P_def)
    have no_throw: "\<not> list_ex (\<lambda>token. generateTokenId e (refresh_token token) salt = None) expired"
      using gen_exp by (simp add: list_ex_iff)
    have d_exp: "distinct (map tid expired)"
      using dt by (simp add: expired_def P_def distinct_map_filter)
    have own: "\<forall>t \<in> set expired. \<forall>x \<in> set (tokens s). tid x = tid t \<longrightarrow> x = t"
      using inj_tid by (auto simp: expired_def P_def[symmetric] dest: inj_onD)
    from refresh_all_result[OF salt gen_exp d_exp own]
    have res: "fst (refresh_all e expired s) = map (settle e) expired"
      and tk: "tokens (snd (refresh_all e expired s))
                 = map (\<lambda>x. if tid x \<in> tid ` set expired then refresh1 e x else x) P"
      by (simp_all add: P_def)
    define s1 where "s1 = snd (refresh_all e expired s)"
    have tk1: "tokens s1 = map (after_refresh e) P"
    proof -
      have "\<And>x. x \<in> set P \<Longrightarrow> (tid x \<in> tid ` set expired) = isExpired e x"
        using inj_tid by (auto simp: expired_def dest: inj_onD)
      then show ?thesis
        unfolding s1_def tk by (auto simp: after_refresh_def refresh1_def intro!: map_cong)
    qed
    have toDisable: "map fst (filter (\<lambda>(token, result). result = FulfilledDisable)
                                (zip expired (fst (refresh_all e expired s)))) = D"
      unfolding res D_def by (rule filter_zip_map)
    have fixD: "\<And>d. d \<in> set D \<Longrightarrow> after_refresh e d = d"
      by (auto simp: D_eq must_disable_def refresh_rejected_def after_refresh_def refresh1_def)
    have D_sub: "set D \<subseteq> set (tokens s1)"
    proof
      fix d assume d: "d \<in> set D"
      then have "d \<in> set P" by (simp add: D_eq)
      then have "after_refresh e d \<in> set (tokens s1)" by (simp add: tk1)
      with fixD[OF d] show "d \<in> set (tokens s1)" by simp
    qed
    have D_acc: "\<forall>d \<in> set D. access_token d \<noteq> None"
      using acc by (simp add: D_eq P_def)
    have D_dist: "distinct (map refresh_token D)"
      using dr by (simp add: D_eq P_def distinct_map_filter)
    from disable_all_result[OF D_acc D_dist D_sub] obtain s2 where s2:
      "disable_all D s1 = (None, s2)"
      "tokens s2 = filter (\<lambda>x. refresh_token x \<notin> refresh_token ` set D) (tokens s1)"
      "\<forall>d \<in> set D. \<exists>snapshot. (snapshot, None) \<in> set (saves s2)
                              \<and> d\<lparr>enable := Some False\<rparr> \<in> set snapshot"
      by blast
    have rt_after: "\<And>x. refresh_token (after_refresh e x) = refresh_token x"
      by (simp add: after_refresh_def)
    have in_D: "\<And>x. x \<in> set P \<Longrightarrow> (refresh_token x \<in> refresh_token ` set D) = must_disable e x"
      using inj_rt by (auto simp: D_eq dest: inj_onD)
    have final: "tokens s2 = map (after_refresh e) (filter (\<lambda>t. \<not> must_disable e t) P)"
      unfolding s2(2) tk1 filter_map
      using in_D by (auto simp: comp_def rt_after intro!: arg_cong[where f="map (after_refresh e)"] filter_cong)
    have run: "refreshExpiredTokensConcurrently e s = disable_all D s1"
      using False salt no_throw toDisable
      by (simp add: refreshExpiredTokensConcurrently_def Let_def P_def[symmetric]
          expired_def[symmetric] split_beta s1_def)
    from s2(3) have "\<forall>d \<in> set (tokens s). must_disable e d \<longrightarrow>
                (\<exists>snapshot. (snapshot, None) \<in> set (saves s2)
                     \<and> d\<lparr>enable := Some False\<rparr> \<in> set snapshot)"
      by (simp add: D_eq P_def)
    with run s2(1) final show ?thesis by (simp add: P_def)
  qed
qed

lemma tokens_of_loaded_state:
  "tokens (loadRotationConfig e (rebuildAvailableQuotaTokens
      (s\<lparr>tokens := P, next_tid := k, currentIndex := 0, tokenRequestCounts := Map.empty\<rparr>))) = P"
  by (simp add: loadRotationConfig_def rebuildAvailableQuotaTokens_def Let_def split: option.splits)

text \<open>
  Let the store be readable, the salt and the token IDs computable, the loaded tokens
  have pairwise different refresh tokens, and every token that is to be disabled carry an
  access token. Then initialization ends with a pool that holds, in order, every loaded
  token except those whose refresh was answered with status 400 or 403: a token that was
  not expired is as loaded, a token whose refresh succeeded carries the new access token,
  and a token whose refresh failed with another status is kept as it was. Each token
  answered with 400 or 403 is handed to the store with \<open>enable = false\<close>.
\<close>

lemma initialize_refresh_wave:
  assumes "storeReadAll e = Some tokenArray"
    and "storeGetSalt e = Some salt"
    and "\<forall>t \<in> set (loaded_tokens e s). generateTokenId e (refresh_token t) salt \<noteq> None"
    and "\<forall>t \<in> set (loaded_tokens e s). must_disable e t \<longrightarrow> access_token t \<noteq> None"
    and "distinct (map refresh_token (loaded_tokens e s))"
  shows "tokens (initialize e s)
           = map (after_refresh e) (filter (\<lambda>t. \<not> must_disable e t) (loaded_tokens e s))
       \<and> (\<forall>t \<in> set (loaded_tokens e s). must_disable e t \<longrightarrow>
             (\<exists>snapshot. (snapshot, None) \<in> set (saves (initialize e s))
                  \<and> t\<lparr>enable := Some False\<rparr> \<in> set snapshot))"
proof -
  define enabled where "enabled = filter (\<lambda>token. enable token \<noteq> Some False) tokenArray"
  define P where "P = map (\<lambda>(i, token). token\<lparr>tid := i\<rparr>) (enumerate (next_tid s) enabled)"
  define s3 where "s3 = loadRotationConfig e (rebuildAvailableQuotaTokens
      (s\<lparr>tokens := P, next_tid := next_tid s + length enabled,
         currentIndex := 0, tokenRequestCounts := Map.empty\<rparr>))"
  have P_loaded: "loaded_tokens e s = P"
    using assms(1) by (simp add: loaded_tokens_def P_def enabled_def)
  have tk3: "tokens s3 = P" unfolding s3_def by (rule tokens_of_loaded_state)
  have eq: "initialize e s =
      (if tokens s3 = [] then s3
       else (case refreshExpiredTokensConcurrently e s3 of
               (None, s4) \<Rightarrow> s4
             | (Some error, s4) \<Rightarrow> s4\<lparr>tokens := []\<rparr>))"
    using assms(1) by (simp add: initialize_def Let_def s3_def P_def enabled_def)
  have dt: "distinct (map tid (tokens s3))"
    unfolding tk3 P_def tids_of_copies by simp
  from refreshExpired_result[of e salt s3] assms(2-) dt
  obtain s4 where s4: "refreshExpiredTokensConcurrently e s3 = (None, s4)"
    "tokens s4 = map (after_refresh e) (filter (\<lambda>t. \<not> must_disable e t) P)"
    "\<forall>d \<in> set P. must_disable e d \<longrightarrow>
        (\<exists>snapshot. (snapshot, None) \<in> set (saves s4) \<and> d\<lparr>enable := Some False\<rparr> \<in> set snapshot)"
    unfolding P_loaded tk3 by blast
  show ?thesis
  proof (cases "P = []")
    case True
    then show ?thesis by (simp add: eq tk3 P_loaded)
  next
    case False
    then show ?thesis using s4 by (simp add: eq tk3 P_loaded)
  qed
qed

lemma initialize_refresh_wave_example:
  "map refresh_token (tokens (initialize wave_env (tm_new 50)))
     = [''refresh-A'', ''refresh-B'', ''refresh-D'']
   \<and> map access_token (tokens (initialize wave_env (tm_new 50)))
     = [Some ''renewed'', Some ''renewed'', Some ''access-D'']"
proof -
  have h1: "storeReadAll wave_env = Some [tokenA, tokenB, tokenC, tokenD]"
    by (simp add: wave_env_def)
  have h2: "storeGetSalt wave_env = Some ''salt''"
    by (simp add: wave_env_def sample_env_def)
  have h3: "\<forall>t \<in> set (loaded_tokens wave_env (tm_new 50)).
              generateTokenId wave_env (refresh_token t) ''salt'' \<noteq> None"
    by (simp add: wave_env_def sample_env_def)
  have h4: "\<forall>t \<in> set (loaded_tokens wave_env (tm_new 50)).
              must_disable wave_env t \<longrightarrow> access_token t \<noteq> None"
    by code_simp
  have h5: "distinct (map refresh_token (loaded_tokens wave_env (tm_new 50)))"
    by code_simp
  from initialize_refresh_wave[OF h1 h2 h3 h4 h5]
  have "tokens (initialize wave_env (tm_new 50))
          = map (after_refresh wave_env)
                (filter (\<lambda>t. \<not> must_disable wave_env t) (loaded_tokens wave_env (tm_new 50)))"
    by blast
  moreover have "map refresh_token (map (after_refresh wave_env)
                (filter (\<lambda>t. \<not> must_disable wave_env t) (loaded_tokens wave_env (tm_new 50))))
            = [''refresh-A'', ''refresh-B'', ''refresh-D'']"
    by code_simp
  moreover have "map access_token (map (after_refresh wave_env)
                (filter (\<lambda>t. \<not> must_disable wave_env t) (loaded_tokens wave_env (tm_new 50))))
            = [Some ''renewed'', Some ''renewed'', Some ''access-D'']"
    by code_simp
  ultimately show ?thesis by simp
qed

text \<open>
  Claim C6. A refresh answered with 400 or 403 is to disable that token and no other,
  and no failure is to keep the remaining tokens from being initialized. This holds for
  stored tokens that carry an access token (lemma \<open>initialize_refresh_wave\<close>; the first
  line below is the boot with four expired tokens). It fails for a stored token without
  access token whose refresh is answered with 403: \<open>disableToken\<close> throws on
  \<open>token.access_token.slice(-8)\<close> before it changes anything, the handler of
  \<open>_initialize\<close> empties the pool, and so the three other tokens are gone while the
  store has never been told to disable the fourth.
\<close>

theorem initialize_refresh_403_without_access_token:
  "map refresh_token (tokens (initialize wave_env (tm_new 50)))
     = [''refresh-A'', ''refresh-B'', ''refresh-D'']
   \<and> tokens (initialize bare_wave_env (tm_new 50)) = []
   \<and> filter (\<lambda>save. list_ex (\<lambda>t. enable t = Some False) (fst save))
        (saves (initialize bare_wave_env (tm_new 50))) = []"
  by code_simp

section \<open>Rotation by request count\<close>

lemma update_token_frame [simp]:
  "currentIndex (update_token t s) = currentIndex s"
  "rotationStrategy (update_token t s) = rotationStrategy s"
  "requestCountPerToken (update_token t s) = requestCountPerToken s"
  "tokenRequestCounts (update_token t s) = tokenRequestCounts s"
  "initPromise (update_token t s) = initPromise s"
  by (simp_all add: update_token_def)

lemma saveToFile_frame [simp]:
  "currentIndex (saveToFile x s) = currentIndex s"
  "rotationStrategy (saveToFile x s) = rotationStrategy s"
  "requestCountPerToken (saveToFile x s) = requestCountPerToken s"
  "tokenRequestCounts (saveToFile x s) = tokenRequestCounts s"
  "initPromise (saveToFile x s) = initPromise s"
  by (simp_all add: saveToFile_def)

lemma refreshToken_ready:
  assumes "env_ready e"
  shows "\<exists>t1 s1. refreshToken e t s = ((None, t1), s1)
           \<and> refresh_token t1 = refresh_token t \<and> tid t1 = tid t \<and> access_token t1 \<noteq> None
           \<and> projectId t1 = projectId t
           \<and> same_frame s s1
           \<and> tokens s1 = map (\<lambda>x. if tid x = tid t then t1 else x) (tokens s)"
proof -
  from assms obtain salt where salt: "storeGetSalt e = Some salt"
    by (auto simp: env_ready_def)
  from assms have "generateTokenId e (refresh_token t) salt \<noteq> None"
    by (simp add: env_ready_def)
  then obtain tokenId where gen: "generateTokenId e (refresh_token t) salt = Some tokenId"
    by auto
  from assms obtain a x where ok: "refreshRequest e t = RefreshOk (Some a) x"
    unfolding env_ready_def by blast
  show ?thesis
    by (simp add: refreshToken_def salt gen ok Let_def same_frame_def update_token_def saveToFile_def)
qed

lemma prepareToken_ready:
  assumes "env_ready e" and "access_token t \<noteq> None"
  shows "\<exists>t1 s1. prepareToken e t s = ((Inr PrepReady, t1), s1)
           \<and> refresh_token t1 = refresh_token t \<and> tid t1 = tid t \<and> access_token t1 \<noteq> None
           \<and> same_frame s s1 \<and> replaced t t1 s s1"
proof -
  obtain t0 s0 where first:
    "(if isExpired e t then refreshToken e t s else ((None, t), s)) = ((None, t0), s0)"
    and t0: "refresh_token t0 = refresh_token t" "tid t0 = tid t" "access_token t0 \<noteq> None"
    and f0: "same_frame s s0" and r0: "replaced t t0 s s0"
  proof (cases "isExpired e t")
    case True
    from refreshToken_ready[OF assms(1), of t s] obtain t1 s1 where
      "refreshToken e t s = ((None, t1), s1)" "refresh_token t1 = refresh_token t"
      "tid t1 = tid t" "access_token t1 \<noteq> None" "same_frame s s1"
      "tokens s1 = map (\<lambda>x. if tid x = tid t then t1 else x) (tokens s)"
      by blast
    with True that show ?thesis by (simp add: replaced_def)
  next
    case False
    with that[of t s] assms(2) show ?thesis by (simp add: same_frame_def replaced_def)
  qed
  show ?thesis
  proof (cases "truthy_str (projectId t0)")
    case True
    with first t0 f0 r0 show ?thesis by (simp add: prepareToken_def)
  next
    case False
    define pid where "pid = (if skipProjectIdFetch e then generateProjectId e else the (fetchProjectId e t0))"
    define t2 where "t2 = t0\<lparr>projectId := Some pid\<rparr>"
    define s2 where "s2 = saveToFile (Some t2) (update_token t2 s0)"
    have fetch: "\<not> skipProjectIdFetch e \<Longrightarrow> fetchProjectId e t0 = Some pid"
      using assms(1) by (auto simp: env_ready_def pid_def)
    have res: "prepareToken e t s = ((Inr PrepReady, t2), s2)"
    proof (cases "skipProjectIdFetch e")
      case True
      then have "pid = generateProjectId e" by (simp add: pid_def)
      with True first False t0(3) show ?thesis
        by (simp add: prepareToken_def Let_def t2_def s2_def)
    next
      case nskip: False
      from fetch[OF nskip] nskip first False t0(3) show ?thesis
        by (simp add: prepareToken_def Let_def t2_def s2_def)
    qed
    have f2: "same_frame s s2" using f0 by (simp add: same_frame_def s2_def)
    have tk2: "tokens s2 = map (\<lambda>x. if tid x = tid t then t2 else x) (tokens s0)"
      by (simp add: s2_def update_token_def t2_def t0(2))
    have "tokens s2 = map (\<lambda>x. if tid x = tid t then t2 else x) (tokens s)"
      using r0 unfolding replaced_def
    proof
      assume "tokens s0 = tokens s \<and> t0 = t"
      then show ?thesis by (simp add: tk2)
    next
      assume "tokens s0 = map (\<lambda>x. if tid x = tid t then t0 else x) (tokens s)"
      then show ?thesis by (simp add: tk2 t0(2) comp_def if_distrib cong: if_cong)
    qed
    then have r2: "replaced t t2 s s2" by (simp add: replaced_def)
    from res f2 r2 t0 show ?thesis by (auto simp: t2_def)
  qed
qed

lemma strategies_differ: "REQUEST_COUNT \<noteq> QUOTA_EXHAUSTED" "REQUEST_COUNT \<noteq> ROUND_ROBIN"
  by (simp_all add: REQUEST_COUNT_def QUOTA_EXHAUSTED_def ROUND_ROBIN_def)

lemma cursor_in_pool: "tokens s \<noteq> [] \<Longrightarrow> cursor_token s \<in> set (tokens s)"
  by (simp add: cursor_token_def)

lemma getToken_request_count:
  assumes "env_ready e" and "request_ready s"
  shows "\<exists>t1 s1. prepareToken e (cursor_token s) s = ((Inr PrepReady, t1), s1)
           \<and> getToken e None s
               = (Inr (Some t1), rotate_default (currentIndex s mod length (tokens s)) t1 s1)
           \<and> refresh_token t1 = refresh_token (cursor_token s) \<and> tid t1 = tid (cursor_token s)
           \<and> access_token t1 \<noteq> None
           \<and> same_frame s s1 \<and> replaced (cursor_token s) t1 s s1"
proof -
  let ?k = "length (tokens s)"
  let ?idx = "currentIndex s mod ?k"
  from assms(2) have ne: "tokens s \<noteq> []" and init: "initPromise s"
    and strat: "rotationStrategy s = REQUEST_COUNT"
    by (simp_all add: request_ready_def)
  have acc: "access_token (cursor_token s) \<noteq> None"
    using assms(2) cursor_in_pool[OF ne] by (simp add: request_ready_def)
  from prepareToken_ready[OF assms(1) acc, of s] obtain t1 s1 where p:
    "prepareToken e (cursor_token s) s = ((Inr PrepReady, t1), s1)"
    "refresh_token t1 = refresh_token (cursor_token s)" "tid t1 = tid (cursor_token s)"
    "access_token t1 \<noteq> None" "same_frame s s1" "replaced (cursor_token s) t1 s s1"
    by blast
  have idx: "js_index (tokens s) ?idx = Some (cursor_token s)"
    using ne by (simp add: js_index_def cursor_token_def)
  have step: "defaultStep e None False ?k (currentIndex s) 0 s
                = Done (Inr (Some t1)) (rotate_default ?idx t1 s1)"
    using idx p(1) by (simp add: defaultStep_def Let_def truthy_str_def)
  have loop: "defaultLoop e None False ?k (currentIndex s) 0 s
                = (Inr (Some t1), rotate_default ?idx t1 s1)"
    using ne step by (simp add: defaultLoop.simps[of e None False ?k "currentIndex s" 0 s])
  have "getToken e None s = (Inr (Some t1), rotate_default ?idx t1 s1)"
    using ne init strat loop
    by (simp add: getToken_def ensureInitialized_def Let_def strategies_differ
        getTokenForDefaultStrategy_def truthy_str_def)
  with p show ?thesis by blast
qed

lemma replaced_pool:
  assumes "replaced t t1 s s1" and "t \<in> set (tokens s)" and "distinct (map tid (tokens s))"
    and "refresh_token t1 = refresh_token t" and "tid t1 = tid t" and "access_token t1 \<noteq> None"
    and "\<forall>x \<in> set (tokens s). access_token x \<noteq> None"
  shows "map refresh_token (tokens s1) = map refresh_token (tokens s)"
    and "map tid (tokens s1) = map tid (tokens s)"
    and "\<forall>x \<in> set (tokens s1). access_token x \<noteq> None"
proof -
  have inj: "inj_on tid (set (tokens s))" using assms(3) by (simp add: distinct_map)
  have same: "\<And>x. x \<in> set (tokens s) \<Longrightarrow> tid x = tid t \<Longrightarrow> x = t"
    using inj assms(2) by (auto dest: inj_onD)
  from assms(1) consider "tokens s1 = tokens s"
    | "tokens s1 = map (\<lambda>x. if tid x = tid t then t1 else x) (tokens s)"
    by (auto simp: replaced_def)
  then have "map refresh_token (tokens s1) = map refresh_token (tokens s)
      \<and> map tid (tokens s1) = map tid (tokens s)
      \<and> (\<forall>x \<in> set (tokens s1). access_token x \<noteq> None)"
  proof cases
    case 1
    with assms(7) show ?thesis by simp
  next
    case 2
    have "map refresh_token (tokens s1) = map refresh_token (tokens s)"
      unfolding 2 using same assms(4) by (auto intro!: map_cong)
    moreover have "map tid (tokens s1) = map tid (tokens s)"
      unfolding 2 using assms(5) by (auto intro!: map_cong)
    moreover have "\<forall>x \<in> set (tokens s1). access_token x \<noteq> None"
      unfolding 2 using assms(6,7) by auto
    ultimately show ?thesis by blast
  qed
  then show "map refresh_token (tokens s1) = map refresh_token (tokens s)"
    and "map tid (tokens s1) = map tid (tokens s)"
    and "\<forall>x \<in> set (tokens s1). access_token x \<noteq> None" by blast+
qed

lemma serve_effect:
  assumes "env_ready e" and "request_ready s"
  shows "request_ready (serve e s)"
    and "requestCountPerToken (serve e s) = requestCountPerToken s"
    and "map refresh_token (tokens (serve e s)) = map refresh_token (tokens s)"
    and "tokenRequestCounts (serve e s)
           = (tokenRequestCounts s)
                (refresh_token (cursor_token s) \<mapsto>
                   (if advance_due s then 1 else count_of s (refresh_token (cursor_token s)) + 1))"
    and "currentIndex (serve e s)
           = (if advance_due s then (currentIndex s mod length (tokens s) + 1) mod length (tokens s)
              else currentIndex s mod length (tokens s))"
proof -
  let ?key = "refresh_token (cursor_token s)"
  let ?idx = "currentIndex s mod length (tokens s)"
  from getToken_request_count[OF assms] obtain t1 s1 where g:
    "getToken e None s = (Inr (Some t1), rotate_default ?idx t1 s1)"
    "refresh_token t1 = ?key" "tid t1 = tid (cursor_token s)" "access_token t1 \<noteq> None"
    "same_frame s s1" "replaced (cursor_token s) t1 s s1"
    by blast
  from assms(2) have ne: "tokens s \<noteq> []" and dt: "distinct (map tid (tokens s))"
    and acc: "\<forall>x \<in> set (tokens s). access_token x \<noteq> None"
    and init: "initPromise s" and strat: "rotationStrategy s = REQUEST_COUNT"
    by (simp_all add: request_ready_def)
  note pool = replaced_pool[OF g(6) cursor_in_pool[OF ne] dt g(2,3,4) acc]
  have len: "length (tokens s1) = length (tokens s)"
    using pool(1) by (metis length_map)
  define s2 where "s2 = rotate_default ?idx t1 s1"
  have due: "(requestCountPerToken s1 \<le> (case tokenRequestCounts s1 ?key of None \<Rightarrow> 0 | Some c \<Rightarrow> c))
               = advance_due s"
    using g(5) by (simp add: same_frame_def advance_due_def count_of_def)
  have s2_eq: "s2 = (if advance_due s
                     then (resetRequestCount ?key (s1\<lparr>currentIndex := ?idx\<rparr>))
                            \<lparr>currentIndex := (?idx + 1) mod length (tokens s)\<rparr>
                     else s1\<lparr>currentIndex := ?idx\<rparr>)"
    using g(5) due strat
    by (simp add: s2_def rotate_default_def Let_def same_frame_def g(2) strategies_differ len)
  have sv: "serve e s = snd (incrementRequestCount ?key s2)"
    by (simp add: serve_def g(1) g(2) s2_def)
  have tk: "tokens (serve e s) = tokens s1"
    by (simp add: sv s2_eq incrementRequestCount_def Let_def resetRequestCount_def)
  show "map refresh_token (tokens (serve e s)) = map refresh_token (tokens s)"
    by (simp add: tk pool(1))
  show "requestCountPerToken (serve e s) = requestCountPerToken s"
    using g(5) by (simp add: sv s2_eq incrementRequestCount_def Let_def resetRequestCount_def
        same_frame_def)
  show "tokenRequestCounts (serve e s)
           = (tokenRequestCounts s)
                (?key \<mapsto> (if advance_due s then 1 else count_of s ?key + 1))"
    using g(5) by (simp add: sv s2_eq incrementRequestCount_def Let_def resetRequestCount_def
        same_frame_def count_of_def)
  show "currentIndex (serve e s)
           = (if advance_due s then (?idx + 1) mod length (tokens s) else ?idx)"
    by (simp add: sv s2_eq incrementRequestCount_def Let_def resetRequestCount_def)
  have "initPromise (serve e s) \<and> rotationStrategy (serve e s) = REQUEST_COUNT"
    using g(5) init strat
    by (simp add: sv s2_eq incrementRequestCount_def Let_def resetRequestCount_def same_frame_def)
  moreover have "tokens (serve e s) \<noteq> []" using tk len ne by auto
  moreover have "distinct (map tid (tokens (serve e s)))" using dt by (simp add: tk pool(2))
  moreover have "\<forall>t \<in> set (tokens (serve e s)). access_token t \<noteq> None"
    using pool(3) by (simp add: tk)
  ultimately show "request_ready (serve e s)" by (simp add: request_ready_def)
qed

lemma serve_total:
  assumes "env_ready e" and "request_ready s"
  shows "total_count (serve e s) + (if advance_due s then requestCountPerToken s else 0)
           \<le> total_count s + 1"
    and "1 \<le> total_count (serve e s)"
proof -
  let ?key = "refresh_token (cursor_token s)"
  let ?K = "set (map refresh_token (tokens s))"
  let ?v = "if advance_due s then 1 else count_of s ?key + 1"
  note eff = serve_effect[OF assms]
  from assms(2) have ne: "tokens s \<noteq> []" by (simp add: request_ready_def)
  have key: "?key \<in> ?K" using cursor_in_pool[OF ne] by simp
  have fin: "finite ?K" by simp
  have cnt: "count_of (serve e s) = (\<lambda>k. if k = ?key then ?v else count_of s k)"
    by (auto simp: count_of_def eff(4) fun_eq_iff)
  have K': "set (map refresh_token (tokens (serve e s))) = ?K" by (simp only: eff(3))
  have t1: "total_count (serve e s) = ?v + sum (count_of s) (?K - {?key})"
    unfolding total_count_def K' cnt
    using sum.remove[OF fin key, of "\<lambda>k. if k = ?key then ?v else count_of s k"]
    by (simp cong: sum.cong_simp)
  have t0: "total_count s = count_of s ?key + sum (count_of s) (?K - {?key})"
    unfolding total_count_def using sum.remove[OF fin key, of "count_of s"] by simp
  show "total_count (serve e s) + (if advance_due s then requestCountPerToken s else 0)
           \<le> total_count s + 1"
    using t0 t1 by (auto simp: advance_due_def)
  show "1 \<le> total_count (serve e s)" using t1 by auto
qed

lemma advances_potential:
  assumes "env_ready e"
  shows "request_ready s \<Longrightarrow>
         advances e n s * requestCountPerToken s + total_count ((serve e ^^ n) s)
           \<le> total_count s + n
         \<and> request_ready ((serve e ^^ n) s)
         \<and> requestCountPerToken ((serve e ^^ n) s) = requestCountPerToken s"
proof (induction n arbitrary: s)
  case 0
  then show ?case by simp
next
  case (Suc n)
  note eff = serve_effect[OF assms Suc.prems]
  note tot = serve_total[OF assms Suc.prems]
  from Suc.IH[OF eff(1)]
  have IH: "advances e n (serve e s) * requestCountPerToken s
              + total_count ((serve e ^^ n) (serve e s)) \<le> total_count (serve e s) + n"
    and r: "request_ready ((serve e ^^ n) (serve e s))"
    and N: "requestCountPerToken ((serve e ^^ n) (serve e s)) = requestCountPerToken s"
    by (simp_all add: eff(2))
  have swap: "(serve e ^^ Suc n) s = (serve e ^^ n) (serve e s)"
    by (simp add: funpow_swap1)
  have "advances e (Suc n) s * requestCountPerToken s + total_count ((serve e ^^ Suc n) s)
      = (if advance_due s then requestCountPerToken s else 0)
        + (advances e n (serve e s) * requestCountPerToken s
           + total_count ((serve e ^^ n) (serve e s)))"
    unfolding swap by (simp add: algebra_simps)
  also have "\<dots> \<le> (if advance_due s then requestCountPerToken s else 0)
                    + (total_count (serve e s) + n)"
    using IH by simp
  also have "\<dots> \<le> total_count s + Suc n" using tot(1) by simp
  finally show ?case using r N unfolding swap by simp
qed

lemma last_total:
  assumes "env_ready e" and "request_ready s" and "0 < n"
  shows "1 \<le> total_count ((serve e ^^ n) s)"
proof -
  from assms(3) obtain m where n: "n = Suc m" by (cases n) auto
  from advances_potential[OF assms(1,2), of m]
  have "request_ready ((serve e ^^ m) s)" by simp
  from serve_total(2)[OF assms(1) this] show ?thesis by (simp add: n)
qed

lemma advances_bound:
  assumes "env_ready e" and "request_ready s"
    and "tokenRequestCounts s = Map.empty" and "1 \<le> requestCountPerToken s" and "1 \<le> n"
  shows "advances e n s \<le> (n - 1) div requestCountPerToken s"
proof -
  have zero: "total_count s = 0" by (simp add: total_count_def count_of_def assms(3))
  from advances_potential[OF assms(1,2), of n] zero
  have "advances e n s * requestCountPerToken s + total_count ((serve e ^^ n) s) \<le> n" by simp
  moreover have "1 \<le> total_count ((serve e ^^ n) s)"
    using last_total[OF assms(1,2)] assms(5) by simp
  ultimately have "advances e n s * requestCountPerToken s \<le> n - 1" by linarith
  then show ?thesis using assms(4)
    by (simp add: less_eq_div_iff_mult_less_eq)
qed

lemma getToken_request_count_state:
  assumes "env_ready e" and "request_ready s"
  shows "\<exists>token s1. getToken e None s = (Inr (Some token), s1)
           \<and> refresh_token token = refresh_token (cursor_token s)
           \<and> currentIndex s1
               = (if advance_due s
                  then (currentIndex s mod length (tokens s) + 1) mod length (tokens s)
                  else currentIndex s mod length (tokens s))
           \<and> tokenRequestCounts s1
               = (if advance_due s
                  then (tokenRequestCounts s)(refresh_token (cursor_token s) \<mapsto> 0)
                  else tokenRequestCounts s)"
proof -
  let ?key = "refresh_token (cursor_token s)"
  let ?idx = "currentIndex s mod length (tokens s)"
  from getToken_request_count[OF assms] obtain t1 s1 where g:
    "getToken e None s = (Inr (Some t1), rotate_default ?idx t1 s1)"
    "refresh_token t1 = ?key" "tid t1 = tid (cursor_token s)" "access_token t1 \<noteq> None"
    "same_frame s s1" "replaced (cursor_token s) t1 s s1"
    by blast
  from assms(2) have ne: "tokens s \<noteq> []" and dt: "distinct (map tid (tokens s))"
    and acc: "\<forall>x \<in> set (tokens s). access_token x \<noteq> None"
    and strat: "rotationStrategy s = REQUEST_COUNT"
    by (simp_all add: request_ready_def)
  note pool = replaced_pool[OF g(6) cursor_in_pool[OF ne] dt g(2,3,4) acc]
  have len: "length (tokens s1) = length (tokens s)"
    using pool(1) by (metis length_map)
  have due: "(requestCountPerToken s1 \<le> (case tokenRequestCounts s1 ?key of None \<Rightarrow> 0 | Some c \<Rightarrow> c))
               = advance_due s"
    using g(5) by (simp add: same_frame_def advance_due_def count_of_def)
  have s2_eq: "rotate_default ?idx t1 s1
                 = (if advance_due s
                     then (resetRequestCount ?key (s1\<lparr>currentIndex := ?idx\<rparr>))
                            \<lparr>currentIndex := (?idx + 1) mod length (tokens s)\<rparr>
                     else s1\<lparr>currentIndex := ?idx\<rparr>)"
    using g(5) due strat
    by (simp add: rotate_default_def Let_def same_frame_def g(2) strategies_differ len)
  have "currentIndex (rotate_default ?idx t1 s1)
          = (if advance_due s then (?idx + 1) mod length (tokens s) else ?idx)"
    by (simp add: s2_eq resetRequestCount_def)
  moreover have "tokenRequestCounts (rotate_default ?idx t1 s1)
          = (if advance_due s then (tokenRequestCounts s)(?key \<mapsto> 0) else tokenRequestCounts s)"
    using g(5) by (simp add: s2_eq resetRequestCount_def same_frame_def)
  ultimately show ?thesis using g(1,2) by blast
qed

text \<open>
  Claim C7. Let no refresh fail, and let the pool be initialized, rotate by request count,
  be non-empty and hold tokens that carry an access token. A selection without a model
  constraint returns the token under the cursor. It moves the cursor on exactly when the
  counter of that token has reached \<open>requestCountPerToken\<close>, and then it resets that
  counter to zero; otherwise it leaves cursor and counters as they are. When the counters
  start empty, the limit is at least one, and every selection is followed by one
  \<open>incrementRequestCount\<close> for the returned token, then among \<open>n \<ge> 1\<close> successive
  selections at most \<open>(n - 1) div requestCountPerToken\<close> move the cursor on.
\<close>

theorem request_count_advances:
  assumes "env_ready e" and "request_ready s"
  shows "(\<exists>token s1. getToken e None s = (Inr (Some token), s1)
           \<and> refresh_token token = refresh_token (cursor_token s)
           \<and> currentIndex s1
               = (if advance_due s
                  then (currentIndex s mod length (tokens s) + 1) mod length (tokens s)
                  else currentIndex s mod length (tokens s))
           \<and> tokenRequestCounts s1
               = (if advance_due s
                  then (tokenRequestCounts s)(refresh_token (cursor_token s) \<mapsto> 0)
                  else tokenRequestCounts s))
       \<and> (tokenRequestCounts s = Map.empty \<and> 1 \<le> requestCountPerToken s \<and> 1 \<le> n
            \<longrightarrow> advances e n s \<le> (n - 1) div requestCountPerToken s)"
  using getToken_request_count_state[OF assms] advances_bound[OF assms, of n]
  by blast

theorem request_count_advances_witness:
  "advances ready_env 7 count_pool = 2
   \<and> advances ready_env 7 count_pool \<le> (7 - 1) div requestCountPerToken count_pool
   \<and> fst (getToken ready_env None count_pool) = Inr (Some tokenA)"
proof -
  have h1: "env_ready ready_env"
    by (simp add: env_ready_def ready_env_def sample_env_def)
  have h2: "request_ready count_pool"
    by (simp add: request_ready_def count_pool_def sample_pool_def tokenA_def tokenB_def
        sample_token_def)
  have h3: "tokenRequestCounts count_pool = Map.empty \<and> 1 \<le> requestCountPerToken count_pool
              \<and> 1 \<le> (7::nat)"
    by (simp add: count_pool_def sample_pool_def)
  from request_count_advances[OF h1 h2, of 7] h3
  have "advances ready_env 7 count_pool \<le> (7 - 1) div requestCountPerToken count_pool"
    by blast
  moreover have "advances ready_env 7 count_pool = 2" by code_simp
  moreover have "fst (getToken ready_env None count_pool) = Inr (Some tokenA)" by code_simp
  ultimately show ?thesis by blast
qed

text \<open>
  With a limit of two requests for each token, two requests move the cursor not at all,
  where the ceiling of \<open>n / N\<close> is one.
\<close>

theorem request_count_advances_counterexample:
  "advances ready_env 2 count_pool = 0
   \<and> currentIndex ((serve ready_env ^^ 2) count_pool) = currentIndex count_pool
   \<and> requestCountPerToken count_pool = 2
   \<and> \<lceil>(2::rat) / of_nat (requestCountPerToken count_pool)\<rceil> = 1"
proof -
  have "advances ready_env 2 count_pool = 0" by code_simp
  moreover have "currentIndex ((serve ready_env ^^ 2) count_pool) = currentIndex count_pool"
    by code_simp
  moreover have "requestCountPerToken count_pool = 2"
    by (simp add: count_pool_def sample_pool_def)
  ultimately show ?thesis by simp
qed


end
